theory Spec2Isabelle
  imports Main "HOL-Library.AList"
begin

section \<open>Data model\<close>

text \<open>
  The records are the JSON objects of \<^verbatim>\<open>src/index.js\<close>, with the fields the code reads.
  Ids are JavaScript numbers holding integers. \<open>AffectedSpell\<close> is only ever tested for
  truthiness and, when truthy, passed on as a spell id: \<open>0\<close> stands for every falsy
  value of the field (\<open>0\<close>, \<open>null\<close>, a missing field).
\<close>

record effect =
  Aura :: bool
  AffectedSpell :: int

record spell_ref =
  SpellID :: int

record item =
  ID :: int
  Name :: string
  Spells :: "spell_ref list"

record spell =
  ID :: int
  Name :: string
  Effects :: "effect list"

text \<open>
  What the program prints, one constructor for each message template of the source;
  \<open>console.log\<close>, \<open>console.warn\<close> and \<open>console.error\<close> share one console.
  The text of a fetch error's message is left out.
\<close>

datatype js_error = TypeError

datatype message =
    NoSpellData int
  | FetchingData string int
  | FailedFetchingItem int
  | FailedFetchingSpell int
  | NewItemsFound nat
  | NewSpellsFound nat
  | NoAurasFound string "int set"
  | CaughtError js_error

record world =
  console :: "message list"

section \<open>Aura resolver\<close>

text \<open>\<^verbatim>\<open>const blacklist = new Set(['Drink', 'Food', ...])\<close>\<close>

definition blacklist :: "string set" where
  "blacklist = {''Drink'', ''Food'', ''Food & Drink'', ''Brain Food'', ''Refreshment'',
     ''Refreshing Drink'', ''Refreshing Food'', ''Bountiful Drink'', ''Bountiful Food'',
     ''Holiday Drink'', ''Brewfest Drink''}"

text \<open>\<^verbatim>\<open>getData(id, store)\<close>: the first record with that id; \<open>None\<close> is \<open>undefined\<close>.\<close>

fun getData :: "int \<Rightarrow> spell list \<Rightarrow> spell option" where
  "getData ident [] = None"
| "getData ident (data # store) = (if ID data = ident then Some data else getData ident store)"

text \<open>
  \<^verbatim>\<open>getAurasForItem(spellID, spells, auras = {}, lookedup = new Set())\<close> mutates the
  objects \<open>auras\<close> and \<open>lookedup\<close>, which every recursive call shares; the model passes
  them along in a state and returns them updated, together with how the call ended.
  \<open>auras\<close> is an association list with one entry for each key, as the object is,
  in the order in which the keys were first written (the object itself enumerates its
  integer keys in ascending order; nothing below depends on the order).
  \<open>getData_calls\<close> has no counterpart in the source: it is the sequence of the ids
  that \<open>getData\<close> was called with, kept to count how often an id is processed.
\<close>

record resolve_state = world +
  auras :: "(int \<times> string) list"
  lookedup :: "int set"
  getData_calls :: "int list"

text \<open>
  A call returns \<open>undefined\<close> (the bare \<^verbatim>\<open>return\<close> of the guard), returns the
  \<open>auras\<close> object, or throws: \<^verbatim>\<open>spellData.Effects\<close> on an undefined \<open>spellData\<close> is a
  \<open>TypeError\<close>, which no handler inside the function catches.
\<close>

datatype outcome = Undefined | Auras | Threw js_error

lemma getData_Some: "getData ident store = Some data \<Longrightarrow> ID data = ident \<and> data \<in> set store"
  by (induction store) (auto split: if_splits)

lemma card_unvisited_less:
  "finite A \<Longrightarrow> s \<in> A \<Longrightarrow> s \<notin> L \<Longrightarrow> card (A - insert s L) < card (A - L)"
  by (metis Diff_iff Diff_insert card_Diff1_less finite_Diff)

lemma card_unvisited_mono:
  "finite A \<Longrightarrow> L \<subseteq> L' \<Longrightarrow> card (A - L') \<le> card (A - (L::'a set))"
  by (simp add: card_mono Diff_mono)

text \<open>
  The recursion of the resolver below is nested: the loop goes on in the state the inner call left. It
  terminates because a call that gets past the guard puts a new id of the collection
  into \<open>lookedup\<close>, and no call takes an id out of it.
\<close>

function (domintros)
  getAurasForItem :: "int \<Rightarrow> spell list \<Rightarrow> resolve_state \<Rightarrow> outcome \<times> resolve_state" and
  getAurasForItem_loop ::
    "int \<Rightarrow> spell \<Rightarrow> effect list \<Rightarrow> spell list \<Rightarrow> resolve_state \<Rightarrow> outcome \<times> resolve_state"
where
  "getAurasForItem spellID spells st =
     (if spellID \<in> lookedup st then (Undefined, st)
      else case getData spellID spells of
        None \<Rightarrow>
          (Threw TypeError,
           st\<lparr>console := console st @ [NoSpellData spellID],
              lookedup := insert spellID (lookedup st),
              getData_calls := getData_calls st @ [spellID]\<rparr>)
      | Some spellData \<Rightarrow>
          getAurasForItem_loop spellID spellData (Effects spellData) spells
            (st\<lparr>lookedup := insert spellID (lookedup st),
               getData_calls := getData_calls st @ [spellID]\<rparr>))"
| "getAurasForItem_loop spellID spellData [] spells st = (Auras, st)"
| "getAurasForItem_loop spellID spellData (effect # rest) spells st =
     (let st1 = (if Aura effect \<and> Name spellData \<notin> blacklist
                 then st\<lparr>auras := AList.update spellID (Name spellData) (auras st)\<rparr>
                 else st)
      in if AffectedSpell effect \<noteq> 0
         then (case getAurasForItem (AffectedSpell effect) spells st1 of
                 (Threw e, st2) \<Rightarrow> (Threw e, st2)
               | (_, st2) \<Rightarrow> getAurasForItem_loop spellID spellData rest spells st2)
         else getAurasForItem_loop spellID spellData rest spells st1)"
  by pat_completeness auto

termination
proof -
  have mono:
    "getAurasForItem_getAurasForItem_loop_dom (Inl (spellID, spells, st)) \<Longrightarrow>
       lookedup st \<subseteq> lookedup (snd (getAurasForItem spellID spells st))"
    "getAurasForItem_getAurasForItem_loop_dom (Inr (spellID', spellData, effects, spells', st')) \<Longrightarrow>
       lookedup st' \<subseteq> lookedup (snd (getAurasForItem_loop spellID' spellData effects spells' st'))"
    for spellID spells st spellID' spellData effects spells' st'
  proof (induct rule: getAurasForItem_getAurasForItem_loop.pinduct)
    case (1 spellID spells st)
    then show ?case
      by (auto simp: getAurasForItem.psimps split: option.splits)
  next
    case (2 spellID spellData spells st)
    then show ?case by (simp add: getAurasForItem_loop.psimps)
  next
    case (3 spellID spellData effect rest spells st)
    define st1 where "st1 = (if Aura effect \<and> Name spellData \<notin> blacklist
                   then st\<lparr>auras := AList.update spellID (Name spellData) (auras st)\<rparr>
                   else st)"
    have l1: "lookedup st1 = lookedup st" by (simp add: st1_def)
    show ?case
    proof (cases "AffectedSpell effect \<noteq> 0")
      case False
      with 3(1) 3(5) [OF st1_def] l1 show ?thesis
        by (simp add: getAurasForItem_loop.psimps flip: st1_def)
    next
      case True
      obtain r st2 where call: "getAurasForItem (AffectedSpell effect) spells st1 = (r, st2)"
        by (cases "getAurasForItem (AffectedSpell effect) spells st1")
      from 3(2) [OF st1_def True] call l1 have l2: "lookedup st \<subseteq> lookedup st2" by simp
      show ?thesis
      proof (cases r)
        case Undefined
        with 3(3) [OF st1_def True call [symmetric]] 3(1) True call l2 show ?thesis
          by (auto simp add: getAurasForItem_loop.psimps simp flip: st1_def)
      next
        case Auras
        with 3(4) [OF st1_def True call [symmetric]] 3(1) True call l2 show ?thesis
          by (auto simp add: getAurasForItem_loop.psimps simp flip: st1_def)
      next
        case (Threw e)
        with 3(1) True call l2 show ?thesis
          by (auto simp add: getAurasForItem_loop.psimps simp flip: st1_def)
      qed
    qed
  qed
  show ?thesis
  proof (relation "inv_image (less_than <*lex*> less_than) (\<lambda>x. case x of
        Inl (s, spells, st) \<Rightarrow> (card (set (map ID spells) - lookedup st), 0)
      | Inr (s, sd, es, spells, st) \<Rightarrow> (card (set (map ID spells) - lookedup st), Suc (length es)))",
      goal_cases)
    case 1
    show ?case by auto
  next
    case (2 spellID spells st x2)
    then have "spellID \<in> set (map ID spells)"
      using getData_Some by force
    with 2 have "card (set (map ID spells) - insert spellID (lookedup st))
        < card (set (map ID spells) - lookedup st)"
      by (intro card_unvisited_less) simp_all
    then show ?case by simp
  next
    case 3 then show ?case by (simp split: if_splits)
  next
    case (4 spellID spellData effect rest spells st x xa y)
    then have "lookedup x \<subseteq> lookedup y"
      using mono(1) [of "AffectedSpell effect" spells x] by (metis snd_conv)
    moreover have "lookedup x = lookedup st" using 4 by (simp split: if_splits)
    ultimately have "card (set (map ID spells) - lookedup y) \<le> card (set (map ID spells) - lookedup st)"
      by (simp add: card_unvisited_mono)
    then show ?case by auto
  next
    case (5 spellID spellData effect rest spells st x xa y)
    then have "lookedup x \<subseteq> lookedup y"
      using mono(1) [of "AffectedSpell effect" spells x] by (metis snd_conv)
    moreover have "lookedup x = lookedup st" using 5 by (simp split: if_splits)
    ultimately have "card (set (map ID spells) - lookedup y) \<le> card (set (map ID spells) - lookedup st)"
      by (simp add: card_unvisited_mono)
    then show ?case by auto
  next
    case 6 then show ?case by (simp split: if_splits)
  qed
qed

declare getAurasForItem.simps [simp del]

text \<open>The state of a top-level call: the default arguments \<^verbatim>\<open>{}\<close> and \<^verbatim>\<open>new Set()\<close>.\<close>

definition fresh :: "message list \<Rightarrow> resolve_state" where
  "fresh out = \<lparr>console = out, auras = [], lookedup = {}, getData_calls = []\<rparr>"

section \<open>Cache updaters\<close>

text \<open>
  \<^verbatim>\<open>downloadJson(type, id)\<close> prints a line and asks wowdb. What wowdb answers during
  one run is a table \<open>wowdb\<close> from the requested id to the record sent back; a request
  for an id that is not in the table fails, and the \<open>await\<close> throws (\<open>None\<close>).
\<close>

definition downloadJson ::
  "string \<Rightarrow> int \<Rightarrow> (int \<times> 'r) list \<Rightarrow> message list \<Rightarrow> 'r option \<times> message list" where
  "downloadJson type ident wowdb out = (map_of wowdb ident, out @ [FetchingData type ident])"

text \<open>
  The array \<open>items\<close> or \<open>spells\<close> (\<open>records\<close>) and the \<open>Set\<close> of ids (\<open>cache\<close>) that
  an updater builds and returns; \<open>written\<close> is what \<^verbatim>\<open>fs.writeJSON\<close> has put into
  \<^verbatim>\<open>items.json\<close> or \<^verbatim>\<open>spells.json\<close>, \<open>None\<close> as long as nothing was written.
  Reading the listing and writing the file are taken to succeed.
\<close>

record 'r cache_state = world +
  records :: "'r list"
  cache :: "int set"
  written :: "'r list option"

text \<open>The loop of \<^verbatim>\<open>updateItemsCache\<close> over \<^verbatim>\<open>info\<close>, with its \<^verbatim>\<open>try\<close> and \<^verbatim>\<open>catch\<close>.\<close>

fun updateItemsCache_loop ::
  "(int \<times> item) list \<Rightarrow> int list \<Rightarrow> item cache_state \<Rightarrow> item cache_state" where
  "updateItemsCache_loop wowdb [] st = st"
| "updateItemsCache_loop wowdb (itemID # info) st =
     (if itemID \<notin> cache st
      then (case downloadJson ''item'' itemID wowdb (console st) of
              (Some item, out) \<Rightarrow>
                updateItemsCache_loop wowdb info
                  (st\<lparr>console := out, records := records st @ [item],
                     cache := insert itemID (cache st)\<rparr>)
            | (None, out) \<Rightarrow>
                updateItemsCache_loop wowdb info
                  (st\<lparr>console := out @ [FailedFetchingItem itemID]\<rparr>))
      else updateItemsCache_loop wowdb info st)"

text \<open>
  \<^verbatim>\<open>updateItemsCache(category)\<close>: \<open>items\<close> is what \<^verbatim>\<open>loadCache\<close> returned (the empty
  list when there is no file), \<open>info\<close> the \<^verbatim>\<open>itemIDs\<close> of the category's listing.
  \<^verbatim>\<open>items.sort((a, b) => a.ID - b.ID)\<close> sorts the array in place.
\<close>

definition updateItemsCache ::
  "(int \<times> item) list \<Rightarrow> item list \<Rightarrow> int list \<Rightarrow> message list \<Rightarrow> item cache_state" where
  "updateItemsCache wowdb items info out =
     (let cache0 = set (map item.ID items);
          numFound = card cache0;
          st = updateItemsCache_loop wowdb info
                 \<lparr>console = out, records = items, cache = cache0, written = None\<rparr>
      in if card (cache st) \<noteq> numFound
         then let sorted_items = sort_key item.ID (records st)
              in st\<lparr>console := console st @ [NewItemsFound (card (cache st) - numFound)],
                    records := sorted_items, written := Some sorted_items\<rparr>
         else st)"

text \<open>
  \<^verbatim>\<open>cacheRelatedSpells(spellID, spells, cache)\<close>. The recursion is nested again; it
  terminates because a successful fetch puts a new id of wowdb's table into \<open>cache\<close>.
\<close>

function (domintros)
  cacheRelatedSpells ::
    "(int \<times> spell) list \<Rightarrow> int \<Rightarrow> spell cache_state \<Rightarrow> spell cache_state" and
  cacheRelatedSpells_loop ::
    "(int \<times> spell) list \<Rightarrow> effect list \<Rightarrow> spell cache_state \<Rightarrow> spell cache_state"
where
  "cacheRelatedSpells wowdb spellID st =
     (if spellID \<in> cache st then st
      else case downloadJson ''spell'' spellID wowdb (console st) of
             (Some spell, out) \<Rightarrow>
               cacheRelatedSpells_loop wowdb (Effects spell)
                 (st\<lparr>console := out, records := records st @ [spell],
                    cache := insert spellID (cache st)\<rparr>)
           | (None, out) \<Rightarrow> st\<lparr>console := out @ [FailedFetchingSpell spellID]\<rparr>)"
| "cacheRelatedSpells_loop wowdb [] st = st"
| "cacheRelatedSpells_loop wowdb (effect # rest) st =
     (if AffectedSpell effect \<noteq> 0
      then cacheRelatedSpells_loop wowdb rest
             (cacheRelatedSpells wowdb (AffectedSpell effect) st)
      else cacheRelatedSpells_loop wowdb rest st)"
  by pat_completeness auto

termination
proof -
  have mono:
    "cacheRelatedSpells_cacheRelatedSpells_loop_dom (Inl (wowdb, spellID, st)) \<Longrightarrow>
       cache st \<subseteq> cache (cacheRelatedSpells wowdb spellID st)"
    "cacheRelatedSpells_cacheRelatedSpells_loop_dom (Inr (wowdb', effects, st')) \<Longrightarrow>
       cache st' \<subseteq> cache (cacheRelatedSpells_loop wowdb' effects st')"
    for wowdb spellID st wowdb' effects st'
  proof (induct rule: cacheRelatedSpells_cacheRelatedSpells_loop.pinduct)
    case (1 wowdb spellID st)
    then show ?case
      by (auto simp: cacheRelatedSpells.psimps downloadJson_def split: option.splits)
  next
    case (2 wowdb st)
    then show ?case by (simp add: cacheRelatedSpells_loop.psimps)
  next
    case (3 wowdb effect rest st)
    then show ?case
      by (auto simp: cacheRelatedSpells_loop.psimps split: if_splits)
  qed
  show ?thesis
  proof (relation "inv_image (less_than <*lex*> less_than) (\<lambda>x. case x of
        Inl (wowdb, s, st) \<Rightarrow> (card (fst ` set wowdb - cache st), 0)
      | Inr (wowdb, es, st) \<Rightarrow> (card (fst ` set wowdb - cache st), Suc (length es)))",
      goal_cases)
    case 1
    show ?case by auto
  next
    case (2 wowdb spellID st x y z)
    then have "spellID \<in> fst ` set wowdb"
      by (metis domI dom_map_of_conv_image_fst downloadJson_def fst_conv)
    with 2 have "card (fst ` set wowdb - insert spellID (cache st))
        < card (fst ` set wowdb - cache st)"
      by (intro card_unvisited_less) simp_all
    then show ?case by simp
  next
    case 3 then show ?case by simp
  next
    case (4 wowdb effect rest st)
    then have "card (fst ` set wowdb - cache (cacheRelatedSpells wowdb (AffectedSpell effect) st))
        \<le> card (fst ` set wowdb - cache st)"
      by (intro card_unvisited_mono mono(1)) simp_all
    then show ?case by auto
  next
    case 5 then show ?case by simp
  qed
qed

declare cacheRelatedSpells.simps [simp del]

text \<open>The two loops of \<^verbatim>\<open>updateSpellsCache\<close>: over the items, and over \<^verbatim>\<open>item.Spells\<close>.\<close>

fun updateSpellsCache_spells ::
  "(int \<times> spell) list \<Rightarrow> spell_ref list \<Rightarrow> spell cache_state \<Rightarrow> spell cache_state" where
  "updateSpellsCache_spells wowdb [] st = st"
| "updateSpellsCache_spells wowdb (spell # rest) st =
     updateSpellsCache_spells wowdb rest (cacheRelatedSpells wowdb (SpellID spell) st)"

fun updateSpellsCache_items ::
  "(int \<times> spell) list \<Rightarrow> item list \<Rightarrow> spell cache_state \<Rightarrow> spell cache_state" where
  "updateSpellsCache_items wowdb [] st = st"
| "updateSpellsCache_items wowdb (item # rest) st =
     updateSpellsCache_items wowdb rest (updateSpellsCache_spells wowdb (Spells item) st)"

text \<open>\<^verbatim>\<open>updateSpellsCache(category, items)\<close>; \<open>spells\<close> is what \<^verbatim>\<open>loadCache\<close> returned.\<close>

definition updateSpellsCache ::
  "(int \<times> spell) list \<Rightarrow> spell list \<Rightarrow> item list \<Rightarrow> message list \<Rightarrow> spell cache_state" where
  "updateSpellsCache wowdb spells items out =
     (let cache0 = set (map ID spells);
          numFound = card cache0;
          st = updateSpellsCache_items wowdb items
                 \<lparr>console = out, records = spells, cache = cache0, written = None\<rparr>
      in if card (cache st) \<noteq> numFound
         then let sorted_spells = sort_key ID (records st)
              in st\<lparr>console := console st @ [NewSpellsFound (card (cache st) - numFound)],
                    records := sorted_spells, written := Some sorted_spells\<rparr>
         else st)"

section \<open>Category aggregator\<close>

text \<open>
  The loops of \<^verbatim>\<open>prepareItemAndSpellData\<close> over the items of a category and over
  \<^verbatim>\<open>item.Spells\<close>. \<open>categoryData\<close> is the \<open>Map\<close> from item id to aura map,
  \<open>itemsCache\<close> the id set that \<^verbatim>\<open>updateItemsCache\<close> returned, \<open>itemNames\<close> the global
  object. Every call of \<^verbatim>\<open>getAurasForItem(spell.SpellID, spells)\<close> passes two
  arguments, so it starts from the default \<open>auras\<close> and \<open>lookedup\<close>.
  \<^verbatim>\<open>Object.keys(auras)\<close> throws a \<open>TypeError\<close> when \<open>auras\<close> is undefined. A loop
  returns the error that ended it, if one did.
\<close>

record category_state = world +
  categoryData :: "(int \<times> (int \<times> string) list) list"
  itemsCache :: "int set"
  itemNames :: "(int \<times> string) list"

fun prepareItemAndSpellData_spells ::
  "item \<Rightarrow> spell_ref list \<Rightarrow> spell list \<Rightarrow> category_state \<Rightarrow> js_error option \<times> category_state" where
  "prepareItemAndSpellData_spells item [] spells st = (None, st)"
| "prepareItemAndSpellData_spells item (spell # rest) spells st =
     (case getAurasForItem (SpellID spell) spells (fresh (console st)) of
        (Threw e, r) \<Rightarrow> (Some e, st\<lparr>console := console r\<rparr>)
      | (Undefined, r) \<Rightarrow> (Some TypeError, st\<lparr>console := console r\<rparr>)
      | (Auras, r) \<Rightarrow>
          if length (auras r) \<noteq> 0
          then prepareItemAndSpellData_spells item rest spells
                 (st\<lparr>console := console r,
                    itemsCache := itemsCache st - {item.ID item},
                    categoryData := AList.update (item.ID item) (auras r) (categoryData st)\<rparr>)
          else prepareItemAndSpellData_spells item rest spells (st\<lparr>console := console r\<rparr>))"

fun prepareItemAndSpellData_items ::
  "item list \<Rightarrow> spell list \<Rightarrow> category_state \<Rightarrow> js_error option \<times> category_state" where
  "prepareItemAndSpellData_items [] spells st = (None, st)"
| "prepareItemAndSpellData_items (item # rest) spells st =
     (case prepareItemAndSpellData_spells item (Spells item) spells
             (st\<lparr>itemNames := AList.update (item.ID item) (item.Name item) (itemNames st)\<rparr>) of
        (Some e, st1) \<Rightarrow> (Some e, st1)
      | (None, st1) \<Rightarrow> prepareItemAndSpellData_items rest spells st1)"

text \<open>
  One category of \<^verbatim>\<open>prepareItemAndSpellData\<close>: what is on disk for it when the run
  starts, and the body of the loop over the categories. \<open>outputs\<close> are the
  \<^verbatim>\<open>output.json\<close> files written so far, \<open>store\<close> the \<open>Map\<close> the function returns.
\<close>

record category_files =
  category :: string
  items_json :: "item list"
  itemIDs :: "int list"
  spells_json :: "spell list"

record run_state = world +
  names :: "(int \<times> string) list"
  outputs :: "(string \<times> (int \<times> (int \<times> string) list) list) list"
  store :: "(string \<times> (int \<times> (int \<times> string) list) list) list"

definition prepareItemAndSpellData_category ::
  "(int \<times> item) list \<Rightarrow> (int \<times> spell) list \<Rightarrow> category_files \<Rightarrow> run_state \<Rightarrow>
     js_error option \<times> run_state" where
  "prepareItemAndSpellData_category wowdb_items wowdb_spells files st =
     (let ic = updateItemsCache wowdb_items (items_json files) (itemIDs files) (console st);
          sc = updateSpellsCache wowdb_spells (spells_json files) (records ic) (console ic)
      in case prepareItemAndSpellData_items (records ic) (records sc)
                \<lparr>console = console sc, categoryData = [], itemsCache = cache ic,
                   itemNames = names st\<rparr> of
           (Some e, cs) \<Rightarrow> (Some e, st\<lparr>console := console cs, names := itemNames cs\<rparr>)
         | (None, cs) \<Rightarrow>
             (None,
              st\<lparr>console := (if itemsCache cs \<noteq> {}
                              then console cs @ [NoAurasFound (category files) (itemsCache cs)]
                              else console cs),
                 names := itemNames cs,
                 outputs := outputs st @ [(category files, categoryData cs)],
                 store := AList.update (category files) (categoryData cs) (store st)\<rparr>))"

fun prepareItemAndSpellData_categories ::
  "(int \<times> item) list \<Rightarrow> (int \<times> spell) list \<Rightarrow> category_files list \<Rightarrow> run_state \<Rightarrow>
     js_error option \<times> run_state" where
  "prepareItemAndSpellData_categories wowdb_items wowdb_spells [] st = (None, st)"
| "prepareItemAndSpellData_categories wowdb_items wowdb_spells (files # rest) st =
     (case prepareItemAndSpellData_category wowdb_items wowdb_spells files st of
        (Some e, st1) \<Rightarrow> (Some e, st1)
      | (None, st1) \<Rightarrow> prepareItemAndSpellData_categories wowdb_items wowdb_spells rest st1)"

text \<open>
  \<^verbatim>\<open>prepareItemAndSpellData()\<close>: the \<^verbatim>\<open>try\<close> around the loop; the \<^verbatim>\<open>catch\<close> prints the
  error, and the function then returns \<open>undefined\<close> (\<open>None\<close>).
\<close>

definition prepareItemAndSpellData ::
  "(int \<times> item) list \<Rightarrow> (int \<times> spell) list \<Rightarrow> category_files list \<Rightarrow> message list \<Rightarrow>
     (string \<times> (int \<times> (int \<times> string) list) list) list option \<times> run_state" where
  "prepareItemAndSpellData wowdb_items wowdb_spells categories out =
     (case prepareItemAndSpellData_categories wowdb_items wowdb_spells categories
             \<lparr>console = out, names = [], outputs = [], store = []\<rparr> of
        (Some e, st) \<Rightarrow> (None, st\<lparr>console := console st @ [CaughtError e]\<rparr>)
      | (None, st) \<Rightarrow> (Some (store st), st))"

section \<open>Reasoning about the resolver\<close>

text \<open>
  Names for the two updates of the state that a call makes, and the equations and
  the induction rule of the resolver stated with them.
\<close>

definition visit :: "int \<Rightarrow> resolve_state \<Rightarrow> resolve_state" where
  "visit s st = st\<lparr>lookedup := insert s (lookedup st), getData_calls := getData_calls st @ [s]\<rparr>"

definition mark :: "int \<Rightarrow> spell \<Rightarrow> effect \<Rightarrow> resolve_state \<Rightarrow> resolve_state" where
  "mark s sd e st =
     (if Aura e \<and> Name sd \<notin> blacklist then st\<lparr>auras := AList.update s (Name sd) (auras st)\<rparr> else st)"

definition throws :: "outcome \<Rightarrow> bool" where
  "throws r = (case r of Threw e \<Rightarrow> True | _ \<Rightarrow> False)"

lemma getAurasForItem_unfold:
  "getAurasForItem s spells st =
     (if s \<in> lookedup st then (Undefined, st)
      else case getData s spells of
        None \<Rightarrow> (Threw TypeError, (visit s st)\<lparr>console := console st @ [NoSpellData s]\<rparr>)
      | Some sd \<Rightarrow> getAurasForItem_loop s sd (Effects sd) spells (visit s st))"
  by (simp add: getAurasForItem.simps visit_def split: option.splits)

lemma getAurasForItem_loop_Cons:
  "getAurasForItem_loop s sd (e # rest) spells st =
     (if AffectedSpell e = 0 then getAurasForItem_loop s sd rest spells (mark s sd e st)
      else let (r, st2) = getAurasForItem (AffectedSpell e) spells (mark s sd e st)
           in if throws r then (r, st2) else getAurasForItem_loop s sd rest spells st2)"
  by (simp add: mark_def throws_def Let_def split: prod.splits outcome.splits)

declare getAurasForItem_loop.simps(2) [simp del]

lemma resolver_induct [case_names call nil cons]:
  assumes call: "\<And>s spells st.
      (\<And>sd. s \<notin> lookedup st \<Longrightarrow> getData s spells = Some sd \<Longrightarrow>
         Q s sd (Effects sd) spells (visit s st)) \<Longrightarrow> P s spells st"
    and nil: "\<And>s sd spells st. Q s sd [] spells st"
    and cons: "\<And>s sd e rest spells st.
      (AffectedSpell e = 0 \<Longrightarrow> Q s sd rest spells (mark s sd e st)) \<Longrightarrow>
      (AffectedSpell e \<noteq> 0 \<Longrightarrow> P (AffectedSpell e) spells (mark s sd e st)) \<Longrightarrow>
      (\<And>r st2. AffectedSpell e \<noteq> 0 \<Longrightarrow>
         getAurasForItem (AffectedSpell e) spells (mark s sd e st) = (r, st2) \<Longrightarrow>
         \<not> throws r \<Longrightarrow> Q s sd rest spells st2) \<Longrightarrow>
      Q s sd (e # rest) spells st"
  shows "P s0 spells0 st0" and "Q s1 sd1 es1 spells1 st1"
proof (induct s0 spells0 st0 and s1 sd1 es1 spells1 st1 rule: getAurasForItem_getAurasForItem_loop.induct)
  case (1 spellID spells st)
  show ?case
    by (rule call) (use 1 in \<open>simp add: visit_def\<close>)
next
  case (2 spellID spellData spells st)
  show ?case by (rule nil)
next
  case (3 spellID spellData effect rest spells st)
  note IH = this
  have m: "mark spellID spellData effect st = (if Aura effect \<and> Name spellData \<notin> blacklist
                 then st\<lparr>auras := AList.update spellID (Name spellData) (auras st)\<rparr>
                 else st)" by (simp add: mark_def)
  show ?case
  proof (rule cons, goal_cases)
    case 1
    with IH(4) [OF m] show ?case by simp
  next
    case 2
    with IH(1) [OF m] show ?case by simp
  next
    case (3 r st2)
    note h = this
    show ?case
    proof (cases r)
      case Undefined
      with h IH(2) [OF m h(1) h(2) [symmetric]] show ?thesis by simp
    next
      case Auras
      with h IH(3) [OF m h(1) h(2) [symmetric]] show ?thesis by simp
    next
      case (Threw e)
      with h show ?thesis by (simp add: throws_def)
    qed
  qed
qed


lemma lookedup_visit [simp]: "lookedup (visit s st) = insert s (lookedup st)"
  by (simp add: visit_def)

lemma lookedup_mark [simp]: "lookedup (mark s sd e st) = lookedup st"
  by (simp add: mark_def)

lemma lookedup_mono:
  shows "lookedup st \<subseteq> lookedup (snd (getAurasForItem s spells st))"
    and "lookedup st' \<subseteq> lookedup (snd (getAurasForItem_loop s' sd es spells' st'))"
proof (induct s spells st and s' sd es spells' st' rule: resolver_induct)
  case (call s spells st)
  then show ?case
    by (auto simp: getAurasForItem_unfold split: option.splits)
next
  case (nil s sd spells st)
  show ?case by simp
next
  case (cons s sd e rest spells st)
  show ?case
  proof (cases "AffectedSpell e = 0")
    case True
    with cons(1) show ?thesis by (simp add: getAurasForItem_loop_Cons)
  next
    case False
    obtain r st2 where c: "getAurasForItem (AffectedSpell e) spells (mark s sd e st) = (r, st2)"
      by (cases "getAurasForItem (AffectedSpell e) spells (mark s sd e st)")
    with cons(2) [OF False] have "lookedup st \<subseteq> lookedup st2" by simp
    with cons(3) [OF False c] False c show ?thesis
      by (auto simp: getAurasForItem_loop_Cons)
  qed
qed

text \<open>Whatever holds of each single update of the state holds of a whole call.\<close>

lemma resolver_steps:
  assumes refl: "\<And>st. R st st"
    and trans: "\<And>a b c. R a b \<Longrightarrow> R b c \<Longrightarrow> R a c"
    and visited: "\<And>s st. s \<notin> lookedup st \<Longrightarrow> R st (visit s st)"
    and warned: "\<And>s st. R st (st\<lparr>console := console st @ [NoSpellData s]\<rparr>)"
    and marked: "\<And>s sd st. getData s spells = Some sd \<Longrightarrow> s \<in> lookedup st \<Longrightarrow>
        Name sd \<notin> blacklist \<Longrightarrow> \<exists>e \<in> set (Effects sd). Aura e \<Longrightarrow>
        R st (st\<lparr>auras := AList.update s (Name sd) (auras st)\<rparr>)"
  shows "R st (snd (getAurasForItem s spells st))"
    and "getData s' spells = Some sd' \<Longrightarrow> set es' \<subseteq> set (Effects sd') \<Longrightarrow>
         s' \<in> lookedup st' \<Longrightarrow> R st' (snd (getAurasForItem_loop s' sd' es' spells st'))"
proof -
  have "spells0 = spells \<Longrightarrow> R st0 (snd (getAurasForItem s0 spells0 st0))"
    and "spells1 = spells \<Longrightarrow> getData s1 spells = Some sd \<Longrightarrow> set es \<subseteq> set (Effects sd) \<Longrightarrow>
         s1 \<in> lookedup st1 \<Longrightarrow> R st1 (snd (getAurasForItem_loop s1 sd es spells1 st1))"
    for s0 spells0 st0 s1 sd es spells1 st1
  proof (induct s0 spells0 st0 and s1 sd es spells1 st1 rule: resolver_induct)
    case (call s spells st)
    show ?case
    proof (cases "s \<in> lookedup st")
      case True
      then show ?thesis by (simp add: getAurasForItem_unfold refl)
    next
      case False
      note nv = this
      show ?thesis
      proof (cases "getData s spells")
        case None
        with nv show ?thesis
          using trans [OF visited [OF nv] warned [of "visit s st" s]]
          by (simp add: getAurasForItem_unfold visit_def)
      next
        case (Some sd)
        with nv call(1) [OF nv Some] call(2) show ?thesis
          using trans [OF visited [OF nv]]
          by (simp add: getAurasForItem_unfold)
      qed
    qed
  next
    case (nil s sd spells st)
    show ?case by (simp add: refl)
  next
    case (cons s sd e rest spells' st)
    have m: "R st (mark s sd e st)"
      using cons(4-7) marked [of s sd st] by (auto simp: mark_def refl)
    show ?case
    proof (cases "AffectedSpell e = 0")
      case True
      with cons(1) [OF True] cons(4-7) m show ?thesis
        by (auto simp: getAurasForItem_loop_Cons intro: trans)
    next
      case False
      obtain r st2 where c: "getAurasForItem (AffectedSpell e) spells' (mark s sd e st) = (r, st2)"
        by (cases "getAurasForItem (AffectedSpell e) spells' (mark s sd e st)")
      from cons(2) [OF False] cons(4) c have r2: "R (mark s sd e st) st2" by simp
      have "lookedup (mark s sd e st) \<subseteq> lookedup st2"
        using lookedup_mono(1) [of "mark s sd e st" "AffectedSpell e" spells'] c by simp
      with cons(7) have v: "s \<in> lookedup st2" by auto
      show ?thesis
      proof (cases "throws r")
        case True
        with False c trans [OF m r2] show ?thesis by (simp add: getAurasForItem_loop_Cons)
      next
        case nt: False
        from cons(3) [OF False c nt] cons(4-6) v have "R st2 (snd (getAurasForItem_loop s sd rest spells' st2))"
          by simp
        with False c nt trans [OF trans [OF m r2]] show ?thesis
          by (simp add: getAurasForItem_loop_Cons)
      qed
    qed
  qed
  then show "R st (snd (getAurasForItem s spells st))"
    and "getData s' spells = Some sd' \<Longrightarrow> set es' \<subseteq> set (Effects sd') \<Longrightarrow>
         s' \<in> lookedup st' \<Longrightarrow> R st' (snd (getAurasForItem_loop s' sd' es' spells st'))"
    by simp_all
qed

lemma getData_None_iff: "getData ident xs = None \<longleftrightarrow> ident \<notin> ID ` set xs"
  by (induction xs) auto

lemma outcome_cases:
  shows "fst (getAurasForItem s spells st) = Undefined \<longleftrightarrow> s \<in> lookedup st"
    and "fst (getAurasForItem_loop s' sd es spells' st') \<noteq> Undefined"
proof (induct s spells st and s' sd es spells' st' rule: resolver_induct)
  case (call s spells st)
  then show ?case
    by (auto simp: getAurasForItem_unfold split: option.splits)
next
  case (nil s sd spells st)
  show ?case by simp
next
  case (cons s sd e rest spells st)
  then show ?case
    by (auto simp: getAurasForItem_loop_Cons throws_def split: prod.splits)
qed

definition closed :: "spell list \<Rightarrow> bool" where
  "closed spells \<longleftrightarrow>
     (\<forall>sd \<in> set spells. \<forall>e \<in> set (Effects sd). AffectedSpell e \<noteq> 0 \<longrightarrow> AffectedSpell e \<in> ID ` set spells)"

lemma closed_no_throw:
  shows "closed spells \<Longrightarrow> s \<in> ID ` set spells \<Longrightarrow> \<not> throws (fst (getAurasForItem s spells st))"
    and "closed spells' \<Longrightarrow> sd \<in> set spells' \<Longrightarrow> set es \<subseteq> set (Effects sd) \<Longrightarrow>
         \<not> throws (fst (getAurasForItem_loop s' sd es spells' st'))"
proof (induct s spells st and s' sd es spells' st' rule: resolver_induct)
  case (call s spells st)
  show ?case
  proof (cases "s \<in> lookedup st")
    case True
    then show ?thesis by (simp add: getAurasForItem_unfold throws_def)
  next
    case False
    from call(3) obtain sd where sd: "getData s spells = Some sd"
      using getData_None_iff [of s spells] by (cases "getData s spells") auto
    then have "sd \<in> set spells" using getData_Some by blast
    with call(1) [OF False sd] call(2) False sd show ?thesis
      by (simp add: getAurasForItem_unfold)
  qed
next
  case (nil s sd spells st)
  show ?case by (simp add: throws_def)
next
  case (cons s sd e rest spells st)
  show ?case
  proof (cases "AffectedSpell e = 0")
    case True
    with cons(1) cons(4-6) show ?thesis by (simp add: getAurasForItem_loop_Cons)
  next
    case False
    with cons(4-6) have "AffectedSpell e \<in> ID ` set spells"
      by (auto simp: closed_def)
    with cons(2) [OF False cons(4)] have nt: "\<not> throws (fst (getAurasForItem (AffectedSpell e) spells (mark s sd e st)))" .
    obtain r st2 where c: "getAurasForItem (AffectedSpell e) spells (mark s sd e st) = (r, st2)"
      by (cases "getAurasForItem (AffectedSpell e) spells (mark s sd e st)")
    with nt have "\<not> throws r" by simp
    with cons(3) [OF False c] cons(4-6) False c show ?thesis
      by (simp add: getAurasForItem_loop_Cons)
  qed
qed

lemma calls_invariant:
  assumes "distinct (getData_calls st)" and "set (getData_calls st) \<subseteq> lookedup st"
  shows "distinct (getData_calls (snd (getAurasForItem s spells st))) \<and>
         set (getData_calls (snd (getAurasForItem s spells st))) \<subseteq> lookedup (snd (getAurasForItem s spells st))"
proof -
  have "(distinct (getData_calls st) \<and> set (getData_calls st) \<subseteq> lookedup st) \<longrightarrow>
     (distinct (getData_calls (snd (getAurasForItem s spells st))) \<and>
         set (getData_calls (snd (getAurasForItem s spells st))) \<subseteq> lookedup (snd (getAurasForItem s spells st)))"
    by (rule resolver_steps(1) [where R = "\<lambda>a b. (distinct (getData_calls a) \<and> set (getData_calls a) \<subseteq> lookedup a) \<longrightarrow>
        (distinct (getData_calls b) \<and> set (getData_calls b) \<subseteq> lookedup b)"])
      (auto simp: visit_def)
  with assms show ?thesis by simp
qed

lemma keys_invariant:
  assumes "distinct (map fst (auras st))"
  shows "distinct (map fst (auras (snd (getAurasForItem s spells st))))"
proof -
  have "distinct (map fst (auras st)) \<longrightarrow> distinct (map fst (auras (snd (getAurasForItem s spells st))))"
    by (rule resolver_steps(1) [where R = "\<lambda>a b. distinct (map fst (auras a)) \<longrightarrow> distinct (map fst (auras b))"])
      (auto simp: visit_def distinct_update)
  with assms show ?thesis by simp
qed

lemma auras_origin:
  assumes "map_of (auras (snd (getAurasForItem s spells st))) k = Some n"
  shows "map_of (auras st) k = Some n \<or>
     (\<exists>sd. getData k spells = Some sd \<and> n = Name sd \<and> n \<notin> blacklist \<and> (\<exists>e \<in> set (Effects sd). Aura e))"
proof -
  let ?good = "\<lambda>k n. \<exists>sd. getData k spells = Some sd \<and> n = Name sd \<and> n \<notin> blacklist \<and> (\<exists>e \<in> set (Effects sd). Aura e)"
  have "\<forall>k n. map_of (auras (snd (getAurasForItem s spells st))) k = Some n \<longrightarrow>
     map_of (auras st) k = Some n \<or> ?good k n"
    by (rule resolver_steps(1) [where R = "\<lambda>a b. \<forall>k n. map_of (auras b) k = Some n \<longrightarrow>
     map_of (auras a) k = Some n \<or> ?good k n"])
      (auto simp: visit_def update_conv')
  with assms show ?thesis by blast
qed


lemma root_visited: "s \<in> lookedup (snd (getAurasForItem s spells st))"
proof -
  have "lookedup (visit s st) \<subseteq> lookedup (snd (getAurasForItem_loop s sd (Effects sd) spells (visit s st)))" for sd
    by (rule lookedup_mono(2))
  then show ?thesis
    by (auto simp: getAurasForItem_unfold split: option.splits)
qed

lemma refs_visited:
  shows "s \<in> lookedup (snd (getAurasForItem s spells st))"
    and "\<not> throws (fst (getAurasForItem_loop s' sd es spells' st')) \<Longrightarrow> e' \<in> set es \<Longrightarrow>
         AffectedSpell e' \<noteq> 0 \<Longrightarrow>
         AffectedSpell e' \<in> lookedup (snd (getAurasForItem_loop s' sd es spells' st'))"
proof (induct s spells st and s' sd es spells' st' rule: resolver_induct)
  case (call s spells st)
  show ?case by (rule root_visited)
next
  case (nil s sd spells st)
  then show ?case by simp
next
  case (cons s sd e rest spells st)
  show ?case
  proof (cases "AffectedSpell e = 0")
    case True
    with cons(1) [OF True] cons(4-6) show ?thesis
      by (auto simp: getAurasForItem_loop_Cons)
  next
    case False
    obtain r st2 where c: "getAurasForItem (AffectedSpell e) spells (mark s sd e st) = (r, st2)"
      by (cases "getAurasForItem (AffectedSpell e) spells (mark s sd e st)")
    from cons(4) False c have nt: "\<not> throws r"
      by (auto simp: getAurasForItem_loop_Cons split: if_splits)
    with False c have eq: "getAurasForItem_loop s sd (e # rest) spells st = getAurasForItem_loop s sd rest spells st2"
      by (simp add: getAurasForItem_loop_Cons)
    have "AffectedSpell e \<in> lookedup st2"
      using root_visited [of "AffectedSpell e" spells "mark s sd e st"] c by simp
    then have here: "AffectedSpell e \<in> lookedup (snd (getAurasForItem_loop s sd rest spells st2))"
      using lookedup_mono(2) by blast
    from cons(5) consider "e' = e" | "e' \<in> set rest" by auto
    then show ?thesis
    proof cases
      case 1
      with here eq show ?thesis by simp
    next
      case 2
      with cons(3) [OF False c nt] cons(4) cons(6) eq show ?thesis by simp
    qed
  qed
qed

definition kept :: "spell list \<Rightarrow> resolve_state \<Rightarrow> resolve_state \<Rightarrow> bool" where
  "kept spells a b \<longleftrightarrow>
     (\<forall>t td. getData t spells = Some td \<longrightarrow> map_of (auras a) t = Some (Name td) \<longrightarrow>
        map_of (auras b) t = Some (Name td))"

lemma recorded_kept:
  shows "kept spells st (snd (getAurasForItem s spells st))"
    and "getData s' spells = Some sd' \<Longrightarrow> set es' \<subseteq> set (Effects sd') \<Longrightarrow>
         s' \<in> lookedup st' \<Longrightarrow> kept spells st' (snd (getAurasForItem_loop s' sd' es' spells st'))"
  by (rule resolver_steps [where R = "kept spells"]; auto simp: kept_def visit_def update_conv')+


definition emits :: "spell \<Rightarrow> bool" where
  "emits td \<longleftrightarrow> Name td \<notin> blacklist \<and> (\<exists>e \<in> set (Effects td). Aura e)"

definition recorded :: "spell list \<Rightarrow> resolve_state \<Rightarrow> int \<Rightarrow> bool" where
  "recorded spells st t \<longleftrightarrow>
     (\<forall>td. getData t spells = Some td \<longrightarrow> emits td \<longrightarrow> map_of (auras st) t = Some (Name td))"

lemma kept_recorded: "kept spells a b \<Longrightarrow> recorded spells a t \<Longrightarrow> recorded spells b t"
  by (auto simp: kept_def recorded_def)

lemma kept_mark: "getData s spells = Some sd \<Longrightarrow> kept spells st (mark s sd e st)"
  by (auto simp: kept_def mark_def update_conv')

lemma visited_recorded:
  shows "\<not> throws (fst (getAurasForItem s spells st)) \<Longrightarrow>
         t \<in> lookedup (snd (getAurasForItem s spells st)) - lookedup st \<Longrightarrow>
         recorded spells (snd (getAurasForItem s spells st)) t"
    and "getData s' spells' = Some sd \<Longrightarrow> set es \<subseteq> set (Effects sd) \<Longrightarrow> s' \<in> lookedup st' \<Longrightarrow>
         \<not> throws (fst (getAurasForItem_loop s' sd es spells' st')) \<Longrightarrow>
         (t \<in> lookedup (snd (getAurasForItem_loop s' sd es spells' st')) - lookedup st' \<longrightarrow>
            recorded spells' (snd (getAurasForItem_loop s' sd es spells' st')) t) \<and>
         (Name sd \<notin> blacklist \<and> (\<exists>e \<in> set es. Aura e) \<longrightarrow>
            map_of (auras (snd (getAurasForItem_loop s' sd es spells' st'))) s' = Some (Name sd))"
proof (induct s spells st and s' sd es spells' st' arbitrary: t and t rule: resolver_induct)
  case (call s spells st)
  from call(3) have nv: "s \<notin> lookedup st"
    by (auto simp: getAurasForItem_unfold)
  with call(2) obtain sd where sd: "getData s spells = Some sd"
    by (cases "getData s spells") (auto simp: getAurasForItem_unfold throws_def)
  let ?r = "getAurasForItem_loop s sd (Effects sd) spells (visit s st)"
  from nv sd have eq: "getAurasForItem s spells st = ?r"
    by (simp add: getAurasForItem_unfold)
  have ih: "(t \<in> lookedup (snd ?r) - lookedup (visit s st) \<longrightarrow> recorded spells (snd ?r) t) \<and>
         (Name sd \<notin> blacklist \<and> (\<exists>e \<in> set (Effects sd). Aura e) \<longrightarrow>
            map_of (auras (snd ?r)) s = Some (Name sd))"
    using call(1) [OF nv sd sd] call(2) eq by simp
  show ?case
  proof (cases "t = s")
    case True
    with ih sd eq show ?thesis by (auto simp: recorded_def emits_def)
  next
    case False
    with ih call(3) eq show ?thesis by simp
  qed
next
  case (nil s sd spells st)
  show ?case by simp
next
  case (cons s sd e rest spells st)
  let ?m = "mark s sd e st"
  have km: "kept spells st ?m" using cons(4) by (rule kept_mark)
  have sub: "set rest \<subseteq> set (Effects sd)" using cons(5) by simp
  have first: "Aura e \<Longrightarrow> Name sd \<notin> blacklist \<Longrightarrow> map_of (auras ?m) s = Some (Name sd)"
    by (simp add: mark_def update_conv')
  show ?case
  proof (cases "AffectedSpell e = 0")
    case True
    let ?r = "getAurasForItem_loop s sd rest spells ?m"
    from True have eq: "getAurasForItem_loop s sd (e # rest) spells st = ?r"
      by (simp add: getAurasForItem_loop_Cons)
    have ih: "(t \<in> lookedup (snd ?r) - lookedup ?m \<longrightarrow> recorded spells (snd ?r) t) \<and>
         (Name sd \<notin> blacklist \<and> (\<exists>e \<in> set rest. Aura e) \<longrightarrow>
            map_of (auras (snd ?r)) s = Some (Name sd))"
      using cons(1) [OF True cons(4) sub] cons(6,7) eq by simp
    have "kept spells ?m (snd ?r)"
      using recorded_kept(2) [OF cons(4) sub] cons(6) by simp
    with first cons(4) have "Aura e \<Longrightarrow> Name sd \<notin> blacklist \<Longrightarrow> map_of (auras (snd ?r)) s = Some (Name sd)"
      by (auto simp: kept_def)
    with ih eq show ?thesis by auto
  next
    case False
    obtain r st2 where c: "getAurasForItem (AffectedSpell e) spells ?m = (r, st2)"
      by (cases "getAurasForItem (AffectedSpell e) spells ?m")
    from cons(7) False c have nt: "\<not> throws r"
      by (auto simp: getAurasForItem_loop_Cons split: if_splits)
    let ?r = "getAurasForItem_loop s sd rest spells st2"
    from nt False c have eq: "getAurasForItem_loop s sd (e # rest) spells st = ?r"
      by (simp add: getAurasForItem_loop_Cons)
    have m2: "lookedup st \<subseteq> lookedup st2"
      using lookedup_mono(1) [of ?m "AffectedSpell e" spells] c by simp
    then have v2: "s \<in> lookedup st2" using cons(6) by auto
    have ih1: "t \<in> lookedup st2 - lookedup st \<Longrightarrow> recorded spells st2 t"
      using cons(2) [OF False, of t] c nt by simp
    have ih2: "(t \<in> lookedup (snd ?r) - lookedup st2 \<longrightarrow> recorded spells (snd ?r) t) \<and>
         (Name sd \<notin> blacklist \<and> (\<exists>e \<in> set rest. Aura e) \<longrightarrow>
            map_of (auras (snd ?r)) s = Some (Name sd))"
      using cons(3) [OF False c nt cons(4) sub v2] cons(7) eq by simp
    have k1: "kept spells ?m st2"
      using recorded_kept(1) [of spells ?m "AffectedSpell e"] c by simp
    have k2: "kept spells st2 (snd ?r)"
      using recorded_kept(2) [OF cons(4) sub v2] .
    from first k1 k2 cons(4)
    have f: "Aura e \<Longrightarrow> Name sd \<notin> blacklist \<Longrightarrow> map_of (auras (snd ?r)) s = Some (Name sd)"
      by (auto simp: kept_def)
    have "t \<in> lookedup (snd ?r) - lookedup st \<Longrightarrow> recorded spells (snd ?r) t"
    proof (cases "t \<in> lookedup st2")
      case True
      assume "t \<in> lookedup (snd ?r) - lookedup st"
      with True ih1 have "recorded spells st2 t" by simp
      with k2 show ?thesis by (rule kept_recorded)
    next
      case False
      assume "t \<in> lookedup (snd ?r) - lookedup st"
      with False ih2 show ?thesis by simp
    qed
    with f ih2 eq show ?thesis by auto
  qed
qed

lemma calls_lookedup:
  assumes "set (getData_calls st) = lookedup st"
  shows "set (getData_calls (snd (getAurasForItem s spells st))) = lookedup (snd (getAurasForItem s spells st))"
proof -
  have "set (getData_calls st) = lookedup st \<longrightarrow>
     set (getData_calls (snd (getAurasForItem s spells st))) = lookedup (snd (getAurasForItem s spells st))"
    by (rule resolver_steps(1) [where R = "\<lambda>a b. set (getData_calls a) = lookedup a \<longrightarrow>
        set (getData_calls b) = lookedup b"])
      (auto simp: visit_def)
  with assms show ?thesis by simp
qed

lemma visited_closed:
  shows "\<not> throws (fst (getAurasForItem s spells st)) \<Longrightarrow>
         t \<in> lookedup (snd (getAurasForItem s spells st)) - lookedup st \<Longrightarrow>
         getData t spells = Some td \<Longrightarrow> e' \<in> set (Effects td) \<Longrightarrow> AffectedSpell e' \<noteq> 0 \<Longrightarrow>
         AffectedSpell e' \<in> lookedup (snd (getAurasForItem s spells st))"
    and "\<not> throws (fst (getAurasForItem_loop s' sd es spells' st')) \<Longrightarrow>
         t \<in> lookedup (snd (getAurasForItem_loop s' sd es spells' st')) - lookedup st' \<Longrightarrow>
         getData t spells' = Some td \<Longrightarrow> e' \<in> set (Effects td) \<Longrightarrow> AffectedSpell e' \<noteq> 0 \<Longrightarrow>
         AffectedSpell e' \<in> lookedup (snd (getAurasForItem_loop s' sd es spells' st'))"
proof (induct s spells st and s' sd es spells' st' arbitrary: t td e' and t td e' rule: resolver_induct)
  case (call s spells st)
  from call(3) have nv: "s \<notin> lookedup st"
    by (auto simp: getAurasForItem_unfold)
  with call(2) obtain sd where sd: "getData s spells = Some sd"
    by (cases "getData s spells") (auto simp: getAurasForItem_unfold throws_def)
  let ?r = "getAurasForItem_loop s sd (Effects sd) spells (visit s st)"
  from nv sd have eq: "getAurasForItem s spells st = ?r"
    by (simp add: getAurasForItem_unfold)
  show ?case
  proof (cases "t = s")
    case True
    with sd call(4) have "td = sd" by simp
    with refs_visited(2) [of s sd "Effects sd" spells "visit s st" e'] call(2,5,6) eq
    show ?thesis by simp
  next
    case False
    with call(1) [OF nv sd, of t td e'] call(2-6) eq show ?thesis by simp
  qed
next
  case (nil s sd spells st)
  then show ?case by simp
next
  case (cons s sd e rest spells st)
  let ?m = "mark s sd e st"
  show ?case
  proof (cases "AffectedSpell e = 0")
    case True
    with cons(1) [OF True, of t td e'] cons(4-8) show ?thesis
      by (simp add: getAurasForItem_loop_Cons)
  next
    case False
    obtain r st2 where c: "getAurasForItem (AffectedSpell e) spells ?m = (r, st2)"
      by (cases "getAurasForItem (AffectedSpell e) spells ?m")
    from cons(4) False c have nt: "\<not> throws r"
      by (auto simp: getAurasForItem_loop_Cons split: if_splits)
    let ?r = "getAurasForItem_loop s sd rest spells st2"
    from nt False c have eq: "getAurasForItem_loop s sd (e # rest) spells st = ?r"
      by (simp add: getAurasForItem_loop_Cons)
    have m3: "lookedup st2 \<subseteq> lookedup (snd ?r)" by (rule lookedup_mono(2))
    show ?thesis
    proof (cases "t \<in> lookedup st2")
      case True
      with cons(2) [OF False, of t td e'] c nt cons(5-8) have "AffectedSpell e' \<in> lookedup st2" by simp
      with m3 eq show ?thesis by auto
    next
      case False
      with cons(3) [OF \<open>AffectedSpell e \<noteq> 0\<close> c nt, of t td e'] cons(4-8) eq show ?thesis by simp
    qed
  qed
qed

lemma count_list_distinct: "distinct xs \<Longrightarrow> x \<in> set xs \<Longrightarrow> count_list xs x = 1"
  by (induction xs) auto

lemma fresh_simps [simp]:
  "console (fresh out) = out" "auras (fresh out) = []" "lookedup (fresh out) = {}"
  "getData_calls (fresh out) = []"
  by (simp_all add: fresh_def)

section \<open>Reasoning about the aggregator\<close>

lemma set_update_subset: "set (AList.update k v al) \<subseteq> insert (k, v) (set al)"
  by (induction al) auto

lemma no_excluded_key:
  assumes "getData k spells = Some sd" and "Name sd \<in> blacklist"
  shows "k \<notin> fst ` set (auras (snd (getAurasForItem spellID spells (fresh out))))"
proof
  assume "k \<in> fst ` set (auras (snd (getAurasForItem spellID spells (fresh out))))"
  then obtain n where "map_of (auras (snd (getAurasForItem spellID spells (fresh out)))) k = Some n"
    by (metis domD dom_map_of_conv_image_fst)
  from auras_origin [OF this] assms show False by auto
qed

definition no_key :: "int \<Rightarrow> (int \<times> (int \<times> string) list) list \<Rightarrow> bool" where
  "no_key k data \<longleftrightarrow> (\<forall>(itemID, am) \<in> set data. k \<notin> fst ` set am)"

lemma spells_loop_no_key:
  assumes "getData k spells = Some sd" and "Name sd \<in> blacklist"
  shows "no_key k (categoryData st) \<Longrightarrow>
         no_key k (categoryData (snd (prepareItemAndSpellData_spells item refs spells st)))"
proof (induction refs arbitrary: st)
  case Nil
  then show ?case by simp
next
  case (Cons ref rest)
  obtain r rs where c: "getAurasForItem (SpellID ref) spells (fresh (console st)) = (r, rs)"
    by (cases "getAurasForItem (SpellID ref) spells (fresh (console st))")
  have nk: "k \<notin> fst ` set (auras rs)"
    using no_excluded_key [OF assms, of "SpellID ref" "console st"] c by simp
  have upd: "no_key k (AList.update (item.ID item) (auras rs) (categoryData st))"
    using Cons.prems nk set_update_subset [of "item.ID item" "auras rs" "categoryData st"]
    by (auto simp: no_key_def)
  show ?case
  proof (cases r)
    case Undefined
    with c Cons.prems show ?thesis by simp
  next
    case Auras
    with c Cons.prems upd show ?thesis by (auto intro!: Cons.IH)
  next
    case (Threw e)
    with c Cons.prems show ?thesis by simp
  qed
qed

lemma items_loop_no_key:
  assumes "getData k spells = Some sd" and "Name sd \<in> blacklist"
  shows "no_key k (categoryData st) \<Longrightarrow>
         no_key k (categoryData (snd (prepareItemAndSpellData_items items spells st)))"
proof (induction items arbitrary: st)
  case Nil
  then show ?case by simp
next
  case (Cons item rest)
  let ?st = "st\<lparr>itemNames := AList.update (item.ID item) (item.Name item) (itemNames st)\<rparr>"
  obtain e st1 where c: "prepareItemAndSpellData_spells item (Spells item) spells ?st = (e, st1)"
    by (cases "prepareItemAndSpellData_spells item (Spells item) spells ?st")
  have "no_key k (categoryData st1)"
    using spells_loop_no_key [OF assms, of ?st item "Spells item"] Cons.prems c by simp
  with c Cons.IH [of st1] show ?case by (cases e) auto
qed

lemma console_mark [simp]: "console (mark s sd e st) = console st"
  by (simp add: mark_def)

lemma console_visit [simp]: "console (visit s st) = console st"
  by (simp add: visit_def)

lemma console_unchanged:
  shows "\<not> throws (fst (getAurasForItem s spells st)) \<Longrightarrow>
         console (snd (getAurasForItem s spells st)) = console st"
    and "\<not> throws (fst (getAurasForItem_loop s' sd es spells' st')) \<Longrightarrow>
         console (snd (getAurasForItem_loop s' sd es spells' st')) = console st'"
proof (induct s spells st and s' sd es spells' st' rule: resolver_induct)
  case (call s spells st)
  then show ?case
    by (auto simp: getAurasForItem_unfold throws_def split: option.splits if_splits)
next
  case (nil s sd spells st)
  show ?case by simp
next
  case (cons s sd e rest spells st)
  show ?case
  proof (cases "AffectedSpell e = 0")
    case True
    with cons(1) cons(4) show ?thesis by (simp add: getAurasForItem_loop_Cons)
  next
    case False
    obtain r st2 where c: "getAurasForItem (AffectedSpell e) spells (mark s sd e st) = (r, st2)"
      by (cases "getAurasForItem (AffectedSpell e) spells (mark s sd e st)")
    from cons(4) False c have nt: "\<not> throws r"
      by (auto simp: getAurasForItem_loop_Cons split: if_splits)
    with cons(2) [OF False] c have "console st2 = console st" by simp
    with cons(3) [OF False c nt] cons(4) False c nt show ?thesis
      by (simp add: getAurasForItem_loop_Cons)
  qed
qed

section \<open>Reasoning about the cache updaters\<close>

text \<open>
  The ids that \<^verbatim>\<open>downloadJson\<close> was called with, read off its lines on the console,
  and those of them that wowdb answers.
\<close>

fun fetched :: "message list \<Rightarrow> int list" where
  "fetched [] = []"
| "fetched (FetchingData type ident # log) = ident # fetched log"
| "fetched (m # log) = fetched log"

definition fetched_ok :: "(int \<times> 'r) list \<Rightarrow> message list \<Rightarrow> int list" where
  "fetched_ok wowdb log = filter (\<lambda>i. map_of wowdb i \<noteq> None) (fetched log)"

lemma fetched_append [simp]: "fetched (xs @ ys) = fetched xs @ fetched ys"
  by (induction xs rule: fetched.induct) auto

lemma fetched_ok_append [simp]: "fetched_ok wowdb (xs @ ys) = fetched_ok wowdb xs @ fetched_ok wowdb ys"
  by (simp add: fetched_ok_def)

text \<open>
  How an updater may change its state: it prints, it appends the records that wowdb
  sent, one for each id fetched with success, and it adds these ids, none of which was
  in the set, to the set; each failed fetch has its line on the console.
\<close>

definition grows ::
  "(int \<Rightarrow> message) \<Rightarrow> (int \<times> 'r) list \<Rightarrow> 'r cache_state \<Rightarrow> 'r cache_state \<Rightarrow> bool" where
  "grows failed wowdb st st' \<longleftrightarrow>
     written st' = written st \<and>
     (\<exists>log new.
        console st' = console st @ log \<and>
        records st' = records st @ new \<and>
        list_all2 (\<lambda>i r. map_of wowdb i = Some r) (fetched_ok wowdb log) new \<and>
        distinct (fetched_ok wowdb log) \<and>
        set (fetched log) \<inter> cache st = {} \<and>
        cache st' = cache st \<union> set (fetched_ok wowdb log) \<and>
        (\<forall>i \<in> set (fetched log). map_of wowdb i = None \<longrightarrow> failed i \<in> set log))"

lemma grows_refl: "grows failed wowdb st st"
  by (auto simp: grows_def fetched_ok_def)

lemma grows_trans:
  assumes "grows failed wowdb a b" and "grows failed wowdb b c"
  shows "grows failed wowdb a c"
proof -
  from assms(1) obtain log1 new1 where 1:
    "written b = written a" "console b = console a @ log1" "records b = records a @ new1"
    "list_all2 (\<lambda>i r. map_of wowdb i = Some r) (fetched_ok wowdb log1) new1"
    "distinct (fetched_ok wowdb log1)" "set (fetched log1) \<inter> cache a = {}"
    "cache b = cache a \<union> set (fetched_ok wowdb log1)"
    "\<forall>i \<in> set (fetched log1). map_of wowdb i = None \<longrightarrow> failed i \<in> set log1"
    unfolding grows_def by blast
  from assms(2) obtain log2 new2 where 2:
    "written c = written b" "console c = console b @ log2" "records c = records b @ new2"
    "list_all2 (\<lambda>i r. map_of wowdb i = Some r) (fetched_ok wowdb log2) new2"
    "distinct (fetched_ok wowdb log2)" "set (fetched log2) \<inter> cache b = {}"
    "cache c = cache b \<union> set (fetched_ok wowdb log2)"
    "\<forall>i \<in> set (fetched log2). map_of wowdb i = None \<longrightarrow> failed i \<in> set log2"
    unfolding grows_def by blast
  have sub: "set (fetched_ok wowdb log2) \<subseteq> set (fetched log2)"
    by (auto simp: fetched_ok_def)
  have "console c = console a @ (log1 @ log2)" using 1 2 by simp
  moreover have "records c = records a @ (new1 @ new2)" using 1 2 by simp
  moreover have "list_all2 (\<lambda>i r. map_of wowdb i = Some r) (fetched_ok wowdb (log1 @ log2)) (new1 @ new2)"
    using 1(4) 2(4) by (simp add: list_all2_appendI)
  moreover have "distinct (fetched_ok wowdb (log1 @ log2))"
    using 1(5,7) 2(5,6) sub by auto
  moreover have "set (fetched (log1 @ log2)) \<inter> cache a = {}"
    using 1(6,7) 2(6) by auto
  moreover have "cache c = cache a \<union> set (fetched_ok wowdb (log1 @ log2))"
    using 1(7) 2(7) by auto
  moreover have "\<forall>i \<in> set (fetched (log1 @ log2)). map_of wowdb i = None \<longrightarrow> failed i \<in> set (log1 @ log2)"
    using 1(8) 2(8) by auto
  moreover have "written c = written a" using 1 2 by simp
  ultimately show ?thesis unfolding grows_def by blast
qed

definition fetch_ok :: "string \<Rightarrow> int \<Rightarrow> 'r \<Rightarrow> 'r cache_state \<Rightarrow> 'r cache_state" where
  "fetch_ok type ident r st =
     st\<lparr>console := console st @ [FetchingData type ident], records := records st @ [r],
        cache := insert ident (cache st)\<rparr>"

definition fetch_failed :: "string \<Rightarrow> int \<Rightarrow> message \<Rightarrow> 'r cache_state \<Rightarrow> 'r cache_state" where
  "fetch_failed type ident m st = st\<lparr>console := console st @ [FetchingData type ident, m]\<rparr>"

lemma grows_fetch_ok:
  assumes "ident \<notin> cache st" and "map_of wowdb ident = Some r"
  shows "grows failed wowdb st (fetch_ok type ident r st)"
  unfolding grows_def fetch_ok_def using assms
  by (auto simp: fetched_ok_def intro!: exI [of _ "[FetchingData type ident]"] exI [of _ "[r]"])

lemma grows_fetch_failed:
  assumes "ident \<notin> cache st" and "map_of wowdb ident = None" and "fetched [failed ident] = []"
  shows "grows failed wowdb st (fetch_failed type ident (failed ident) st)"
  unfolding grows_def fetch_failed_def using assms
  by (auto simp: fetched_ok_def intro!: exI [of _ "[FetchingData type ident, failed ident]"])

lemma updateItemsCache_loop_Cons:
  "updateItemsCache_loop wowdb (itemID # info) st =
     (if itemID \<in> cache st then updateItemsCache_loop wowdb info st
      else case map_of wowdb itemID of
             None \<Rightarrow> updateItemsCache_loop wowdb info
                       (fetch_failed ''item'' itemID (FailedFetchingItem itemID) st)
           | Some item \<Rightarrow> updateItemsCache_loop wowdb info (fetch_ok ''item'' itemID item st))"
  by (simp add: downloadJson_def fetch_ok_def fetch_failed_def split: option.splits)

declare updateItemsCache_loop.simps(2) [simp del]

lemma cacheRelatedSpells_unfold:
  "cacheRelatedSpells wowdb spellID st =
     (if spellID \<in> cache st then st
      else case map_of wowdb spellID of
             None \<Rightarrow> fetch_failed ''spell'' spellID (FailedFetchingSpell spellID) st
           | Some spell \<Rightarrow>
               cacheRelatedSpells_loop wowdb (Effects spell) (fetch_ok ''spell'' spellID spell st))"
  by (simp add: cacheRelatedSpells.simps downloadJson_def fetch_ok_def fetch_failed_def
      split: option.splits)

lemma cacheRelatedSpells_loop_Cons:
  "cacheRelatedSpells_loop wowdb (effect # rest) st =
     cacheRelatedSpells_loop wowdb rest
       (if AffectedSpell effect = 0 then st else cacheRelatedSpells wowdb (AffectedSpell effect) st)"
  by simp

declare cacheRelatedSpells_loop.simps(2) [simp del]

lemma expander_induct [case_names call nil cons]:
  assumes call: "\<And>wowdb s st.
      (\<And>spell. s \<notin> cache st \<Longrightarrow> map_of wowdb s = Some spell \<Longrightarrow>
         Q wowdb (Effects spell) (fetch_ok ''spell'' s spell st)) \<Longrightarrow> P wowdb s st"
    and nil: "\<And>wowdb st. Q wowdb [] st"
    and cons: "\<And>wowdb e rest st.
      (AffectedSpell e \<noteq> 0 \<Longrightarrow> P wowdb (AffectedSpell e) st) \<Longrightarrow>
      (AffectedSpell e \<noteq> 0 \<Longrightarrow> Q wowdb rest (cacheRelatedSpells wowdb (AffectedSpell e) st)) \<Longrightarrow>
      (AffectedSpell e = 0 \<Longrightarrow> Q wowdb rest st) \<Longrightarrow>
      Q wowdb (e # rest) st"
  shows "P wowdb0 s0 st0" and "Q wowdb1 es1 st1"
proof (induct wowdb0 s0 st0 and wowdb1 es1 st1 rule: cacheRelatedSpells_cacheRelatedSpells_loop.induct)
  case (1 wowdb spellID st)
  show ?case
  proof (rule call)
    fix spell
    assume "spellID \<notin> cache st" and "map_of wowdb spellID = Some spell"
    with 1 [of "Some spell" "console st @ [FetchingData ''spell'' spellID]" spell]
    show "Q wowdb (Effects spell) (fetch_ok ''spell'' spellID spell st)"
      by (simp add: downloadJson_def fetch_ok_def)
  qed
next
  case (2 wowdb st)
  show ?case by (rule nil)
next
  case (3 wowdb effect rest st)
  then show ?case by (intro cons) simp_all
qed

lemma updateItemsCache_loop_grows:
  "grows FailedFetchingItem wowdb st (updateItemsCache_loop wowdb info st)"
proof (induction info arbitrary: st)
  case Nil
  show ?case by (simp add: grows_refl)
next
  case (Cons itemID info)
  show ?case
  proof (cases "itemID \<in> cache st")
    case True
    with Cons show ?thesis by (simp add: updateItemsCache_loop_Cons)
  next
    case False
    show ?thesis
    proof (cases "map_of wowdb itemID")
      case None
      have "grows FailedFetchingItem wowdb st
          (fetch_failed ''item'' itemID (FailedFetchingItem itemID) st)"
        by (rule grows_fetch_failed [OF False None]) simp
      from grows_trans [OF this Cons.IH] False None
      show ?thesis by (simp add: updateItemsCache_loop_Cons)
    next
      case (Some item)
      with False grows_trans [OF grows_fetch_ok [OF False Some] Cons.IH]
      show ?thesis by (simp add: updateItemsCache_loop_Cons)
    qed
  qed
qed


lemma cacheRelatedSpells_grows:
  shows "grows FailedFetchingSpell wowdb st (cacheRelatedSpells wowdb spellID st)"
    and "grows FailedFetchingSpell wowdb' st' (cacheRelatedSpells_loop wowdb' effects st')"
proof (induct wowdb spellID st and wowdb' effects st' rule: expander_induct)
  case (call wowdb s st)
  show ?case
  proof (cases "s \<in> cache st")
    case True
    then show ?thesis by (simp add: cacheRelatedSpells_unfold grows_refl)
  next
    case False
    show ?thesis
    proof (cases "map_of wowdb s")
      case None
      have "grows FailedFetchingSpell wowdb st
          (fetch_failed ''spell'' s (FailedFetchingSpell s) st)"
        by (rule grows_fetch_failed [OF False None]) simp
      with False None show ?thesis by (simp add: cacheRelatedSpells_unfold)
    next
      case (Some spell)
      with False grows_trans [OF grows_fetch_ok [OF False Some] call [OF False Some]]
      show ?thesis by (simp add: cacheRelatedSpells_unfold)
    qed
  qed
next
  case (nil wowdb st)
  show ?case by (simp add: grows_refl)
next
  case (cons wowdb e rest st)
  then show ?case
    by (auto simp: cacheRelatedSpells_loop_Cons intro: grows_trans)
qed

lemma updateSpellsCache_spells_grows:
  "grows FailedFetchingSpell wowdb st (updateSpellsCache_spells wowdb refs st)"
  by (induction refs arbitrary: st) (auto intro: grows_refl grows_trans cacheRelatedSpells_grows(1))

lemma updateSpellsCache_items_grows:
  "grows FailedFetchingSpell wowdb st (updateSpellsCache_items wowdb items st)"
  by (induction items arbitrary: st) (auto intro: grows_refl grows_trans updateSpellsCache_spells_grows)


text \<open>What an updater returns, for the records \<open>xs\<close> it loaded and the console \<open>out\<close> it started with.\<close>

definition updated ::
  "(int \<Rightarrow> message) \<Rightarrow> ('r \<Rightarrow> int) \<Rightarrow> (int \<times> 'r) list \<Rightarrow> 'r list \<Rightarrow> message list \<Rightarrow>
     'r cache_state \<Rightarrow> bool" where
  "updated failed key wowdb xs out r \<longleftrightarrow>
     (\<exists>log new.
        console r = out @ log \<and>
        list_all2 (\<lambda>i r. map_of wowdb i = Some r) (fetched_ok wowdb log) new \<and>
        distinct (fetched_ok wowdb log) \<and>
        set (fetched log) \<inter> key ` set xs = {} \<and>
        cache r = key ` set xs \<union> set (fetched_ok wowdb log) \<and>
        (\<forall>i \<in> set (fetched log). map_of wowdb i = None \<longrightarrow> failed i \<in> set log) \<and>
        (if fetched_ok wowdb log = [] then records r = xs \<and> written r = None
         else records r = sort_key key (xs @ new) \<and> written r = Some (records r)))"

lemma grows_card:
  assumes "grows failed wowdb st st'" and "finite (cache st)"
  obtains log new where
    "console st' = console st @ log" "records st' = records st @ new"
    "list_all2 (\<lambda>i r. map_of wowdb i = Some r) (fetched_ok wowdb log) new"
    "distinct (fetched_ok wowdb log)" "set (fetched log) \<inter> cache st = {}"
    "cache st' = cache st \<union> set (fetched_ok wowdb log)"
    "\<forall>i \<in> set (fetched log). map_of wowdb i = None \<longrightarrow> failed i \<in> set log"
    "written st' = written st"
    "card (cache st') = card (cache st) + length (fetched_ok wowdb log)"
proof -
  from assms(1) obtain log new where g:
    "console st' = console st @ log" "records st' = records st @ new"
    "list_all2 (\<lambda>i r. map_of wowdb i = Some r) (fetched_ok wowdb log) new"
    "distinct (fetched_ok wowdb log)" "set (fetched log) \<inter> cache st = {}"
    "cache st' = cache st \<union> set (fetched_ok wowdb log)"
    "\<forall>i \<in> set (fetched log). map_of wowdb i = None \<longrightarrow> failed i \<in> set log"
    "written st' = written st"
    unfolding grows_def by blast
  have "set (fetched_ok wowdb log) \<inter> cache st = {}"
    using g(5) by (auto simp: fetched_ok_def)
  then have "card (cache st \<union> set (fetched_ok wowdb log)) = card (cache st) + card (set (fetched_ok wowdb log))"
    using assms(2) by (intro card_Un_disjoint) auto
  with g(4,6) have "card (cache st') = card (cache st) + length (fetched_ok wowdb log)"
    by (simp add: distinct_card)
  with g show ?thesis by (rule that)
qed

lemma updateItemsCache_updated:
  "updated FailedFetchingItem item.ID wowdb items out (updateItemsCache wowdb items info out)"
proof -
  let ?init = "\<lparr>console = out, records = items, cache = set (map item.ID items), written = None\<rparr>"
  let ?st = "updateItemsCache_loop wowdb info ?init"
  have "grows FailedFetchingItem wowdb ?init ?st" by (rule updateItemsCache_loop_grows)
  moreover have "finite (cache ?init)" by simp
  ultimately obtain log new where g:
    "console ?st = console ?init @ log" "records ?st = records ?init @ new"
    "list_all2 (\<lambda>i r. map_of wowdb i = Some r) (fetched_ok wowdb log) new"
    "distinct (fetched_ok wowdb log)" "set (fetched log) \<inter> cache ?init = {}"
    "cache ?st = cache ?init \<union> set (fetched_ok wowdb log)"
    "\<forall>i \<in> set (fetched log). map_of wowdb i = None \<longrightarrow> FailedFetchingItem i \<in> set log"
    "written ?st = written ?init"
    "card (cache ?st) = card (cache ?init) + length (fetched_ok wowdb log)"
    by (rule grows_card)
  show ?thesis
  proof (cases "fetched_ok wowdb log = []")
    case True
    with g(9) have "card (cache ?st) = card (set (map item.ID items))" by simp
    then have "updateItemsCache wowdb items info out = ?st"
      by (simp add: updateItemsCache_def Let_def)
    moreover from True g(2,3) have "records ?st = items" by simp
    ultimately show ?thesis
      unfolding updated_def using g True
      by (intro exI [of _ log] exI [of _ new]) simp
  next
    case False
    with g(9) have "card (cache ?st) \<noteq> card (set (map item.ID items))" by simp
    then have r: "updateItemsCache wowdb items info out =
        ?st\<lparr>console := console ?st @ [NewItemsFound (card (cache ?st) - card (set (map item.ID items)))],
            records := sort_key item.ID (records ?st),
            written := Some (sort_key item.ID (records ?st))\<rparr>"
      by (simp add: updateItemsCache_def Let_def)
    let ?m = "NewItemsFound (card (cache ?st) - card (set (map item.ID items)))"
    show ?thesis
      unfolding updated_def r using g False
      by (intro exI [of _ "log @ [?m]"] exI [of _ new]) (simp add: fetched_ok_def)
  qed
qed

lemma updateSpellsCache_updated:
  "updated FailedFetchingSpell ID wowdb spells out (updateSpellsCache wowdb spells items out)"
proof -
  let ?init = "\<lparr>console = out, records = spells, cache = set (map ID spells), written = None\<rparr>"
  let ?st = "updateSpellsCache_items wowdb items ?init"
  have "grows FailedFetchingSpell wowdb ?init ?st" by (rule updateSpellsCache_items_grows)
  moreover have "finite (cache ?init)" by simp
  ultimately obtain log new where g:
    "console ?st = console ?init @ log" "records ?st = records ?init @ new"
    "list_all2 (\<lambda>i r. map_of wowdb i = Some r) (fetched_ok wowdb log) new"
    "distinct (fetched_ok wowdb log)" "set (fetched log) \<inter> cache ?init = {}"
    "cache ?st = cache ?init \<union> set (fetched_ok wowdb log)"
    "\<forall>i \<in> set (fetched log). map_of wowdb i = None \<longrightarrow> FailedFetchingSpell i \<in> set log"
    "written ?st = written ?init"
    "card (cache ?st) = card (cache ?init) + length (fetched_ok wowdb log)"
    by (rule grows_card)
  show ?thesis
  proof (cases "fetched_ok wowdb log = []")
    case True
    with g(9) have "card (cache ?st) = card (set (map ID spells))" by simp
    then have "updateSpellsCache wowdb spells items out = ?st"
      by (simp add: updateSpellsCache_def Let_def)
    moreover from True g(2,3) have "records ?st = spells" by simp
    ultimately show ?thesis
      unfolding updated_def using g True
      by (intro exI [of _ log] exI [of _ new]) simp
  next
    case False
    with g(9) have "card (cache ?st) \<noteq> card (set (map ID spells))" by simp
    then have r: "updateSpellsCache wowdb spells items out =
        ?st\<lparr>console := console ?st @ [NewSpellsFound (card (cache ?st) - card (set (map ID spells)))],
            records := sort_key ID (records ?st),
            written := Some (sort_key ID (records ?st))\<rparr>"
      by (simp add: updateSpellsCache_def Let_def)
    let ?m = "NewSpellsFound (card (cache ?st) - card (set (map ID spells)))"
    show ?thesis
      unfolding updated_def r using g False
      by (intro exI [of _ "log @ [?m]"] exI [of _ new]) (simp add: fetched_ok_def)
  qed
qed


lemma distinct_map_insort_key:
  "distinct (map f (insort_key f x xs)) \<longleftrightarrow> f x \<notin> f ` set xs \<and> distinct (map f xs)"
  by (induction xs) (auto simp: set_insort_key)

lemma distinct_map_sort_key: "distinct (map f (sort_key f xs)) \<longleftrightarrow> distinct (map f xs)"
  by (induction xs) (auto simp: distinct_map_insort_key)

lemma strict_sorted_sort_key:
  "distinct (map f xs) \<Longrightarrow> sorted_wrt (<) (map f (sort_key f xs))"
  by (simp add: strict_sorted_iff distinct_map_sort_key)

lemma fetched_keys:
  assumes "list_all2 (\<lambda>i r. map_of wowdb i = Some r) ids new"
    and "\<forall>i r. map_of wowdb i = Some r \<longrightarrow> key r = i"
  shows "map key new = ids"
  using assms by (induction ids new rule: list_all2_induct) auto

lemma updateItemsCache_loop_cache:
  "cache (updateItemsCache_loop wowdb info st) = cache st \<union> {i \<in> set info. map_of wowdb i \<noteq> None}"
  by (induction info arbitrary: st)
    (auto simp: updateItemsCache_loop_Cons fetch_ok_def fetch_failed_def split: option.splits)

lemma updateItemsCache_cache:
  "cache (updateItemsCache wowdb items info out) =
     item.ID ` set items \<union> {i \<in> set info. map_of wowdb i \<noteq> None}"
  by (simp add: updateItemsCache_def Let_def updateItemsCache_loop_cache)

lemma updated_distinct:
  assumes "updated failed key wowdb xs out r" and "distinct (map key xs)"
    and "\<forall>i x. map_of wowdb i = Some x \<longrightarrow> key x = i"
  shows "distinct (map key (records r))" and "key ` set (records r) = cache r"
    and "written r = Some ys \<Longrightarrow> ys = records r \<and> sorted_wrt (<) (map key ys)"
proof -
  from assms(1) obtain log new where u:
    "list_all2 (\<lambda>i r. map_of wowdb i = Some r) (fetched_ok wowdb log) new"
    "distinct (fetched_ok wowdb log)" "set (fetched log) \<inter> key ` set xs = {}"
    "cache r = key ` set xs \<union> set (fetched_ok wowdb log)"
    "if fetched_ok wowdb log = [] then records r = xs \<and> written r = None
     else records r = sort_key key (xs @ new) \<and> written r = Some (records r)"
    unfolding updated_def by blast
  have k: "map key new = fetched_ok wowdb log" using u(1) assms(3) by (rule fetched_keys)
  have "set (fetched_ok wowdb log) \<inter> key ` set xs = {}"
    using u(3) by (auto simp: fetched_ok_def)
  with assms(2) u(2) k have d: "distinct (map key (xs @ new))" by auto
  have n: "new = []" if "fetched_ok wowdb log = []" using that k by simp
  from d u(5) n show "distinct (map key (records r))"
    by (auto simp: distinct_map_sort_key split: if_splits)
  have "key ` set (xs @ new) = key ` set xs \<union> set (fetched_ok wowdb log)"
    using k by (metis image_Un set_append set_map)
  with u(4,5) n show "key ` set (records r) = cache r"
    by (cases "fetched_ok wowdb log = []") simp_all
  show "ys = records r \<and> sorted_wrt (<) (map key ys)" if "written r = Some ys"
    using that u(5) d by (auto simp: strict_sorted_sort_key split: if_splits)
qed


lemma grows_console: "grows failed wowdb st st' \<Longrightarrow> set (console st) \<subseteq> set (console st')"
  by (auto simp: grows_def)

lemma grows_cache: "grows failed wowdb st st' \<Longrightarrow> cache st \<subseteq> cache st'"
  by (auto simp: grows_def)

lemma grows_records: "grows failed wowdb st st' \<Longrightarrow> \<exists>new. records st' = records st @ new"
  by (auto simp: grows_def)

lemma grows_absent:
  "grows failed wowdb st st' \<Longrightarrow> map_of wowdb i = None \<Longrightarrow> i \<notin> cache st \<Longrightarrow> i \<notin> cache st'"
  by (auto simp: grows_def fetched_ok_def)

lemma updated_console: "updated failed key wowdb xs out r \<Longrightarrow> set out \<subseteq> set (console r)"
  by (auto simp: updated_def)

lemma updated_absent:
  "updated failed key wowdb xs out r \<Longrightarrow> map_of wowdb i = None \<Longrightarrow> i \<notin> key ` set xs \<Longrightarrow>
   i \<notin> cache r"
  by (auto simp: updated_def fetched_ok_def)

lemma updated_keys:
  assumes "updated failed key wowdb xs out r"
    and "\<forall>i x. map_of wowdb i = Some x \<longrightarrow> key x = i"
  shows "key ` set (records r) = cache r"
proof -
  from assms(1) obtain log new where u:
    "list_all2 (\<lambda>i r. map_of wowdb i = Some r) (fetched_ok wowdb log) new"
    "cache r = key ` set xs \<union> set (fetched_ok wowdb log)"
    "if fetched_ok wowdb log = [] then records r = xs \<and> written r = None
     else records r = sort_key key (xs @ new) \<and> written r = Some (records r)"
    unfolding updated_def by blast
  have k: "map key new = fetched_ok wowdb log" using u(1) assms(2) by (rule fetched_keys)
  have n: "new = []" if "fetched_ok wowdb log = []" using that k by simp
  have "key ` set (xs @ new) = key ` set xs \<union> set (fetched_ok wowdb log)"
    using k by (metis image_Un set_append set_map)
  with u(2,3) n show "key ` set (records r) = cache r"
    by (cases "fetched_ok wowdb log = []") simp_all
qed

lemma updated_records:
  assumes "updated failed key wowdb xs out r"
  shows "\<exists>new. records r = xs @ new \<or> records r = sort_key key (xs @ new)"
proof -
  from assms(1) obtain log new where
    "if fetched_ok wowdb log = [] then records r = xs \<and> written r = None
     else records r = sort_key key (xs @ new) \<and> written r = Some (records r)"
    unfolding updated_def by blast
  then show ?thesis
    by (cases "fetched_ok wowdb log = []") (auto intro: exI [of _ "[]"])
qed

lemma updated_kept:
  assumes "updated failed key wowdb xs out r"
  shows "set xs \<subseteq> set (records r)" and "key ` set xs \<subseteq> cache r"
proof -
  from updated_records [OF assms] obtain new where
    "records r = xs @ new \<or> records r = sort_key key (xs @ new)" ..
  then show "set xs \<subseteq> set (records r)" by auto
  from assms show "key ` set xs \<subseteq> cache r" by (auto simp: updated_def)
qed

lemma fetch_failed_logged:
  "m \<in> set (console (fetch_failed type ident m st))"
  by (simp add: fetch_failed_def)

lemma updateItemsCache_loop_failed:
  "i \<in> set info \<Longrightarrow> i \<notin> cache st \<Longrightarrow> map_of wowdb i = None \<Longrightarrow>
   FailedFetchingItem i \<in> set (console (updateItemsCache_loop wowdb info st))"
proof (induction info arbitrary: st)
  case Nil
  then show ?case by simp
next
  case (Cons j info)
  show ?case
  proof (cases "j = i")
    case True
    let ?st = "fetch_failed ''item'' i (FailedFetchingItem i) st"
    have "FailedFetchingItem i \<in> set (console ?st)" by (rule fetch_failed_logged)
    moreover have "set (console ?st) \<subseteq> set (console (updateItemsCache_loop wowdb info ?st))"
      by (rule grows_console [OF updateItemsCache_loop_grows])
    ultimately show ?thesis using True Cons.prems by (auto simp: updateItemsCache_loop_Cons)
  next
    case False
    with Cons.prems have i: "i \<in> set info" by simp
    show ?thesis
    proof (cases "j \<in> cache st")
      case True
      with Cons.IH [OF i Cons.prems(2,3)] show ?thesis by (simp add: updateItemsCache_loop_Cons)
    next
      case nc: False
      show ?thesis
      proof (cases "map_of wowdb j")
        case None
        have "i \<notin> cache (fetch_failed ''item'' j (FailedFetchingItem j) st)"
          using Cons.prems(2) by (simp add: fetch_failed_def)
        from Cons.IH [OF i this Cons.prems(3)] nc None show ?thesis
          by (simp add: updateItemsCache_loop_Cons)
      next
        case (Some item)
        have "i \<notin> cache (fetch_ok ''item'' j item st)"
          using Cons.prems(2) False by (simp add: fetch_ok_def)
        from Cons.IH [OF i this Cons.prems(3)] nc Some show ?thesis
          by (simp add: updateItemsCache_loop_Cons)
      qed
    qed
  qed
qed

lemma updateItemsCache_console:
  "set (console (updateItemsCache_loop wowdb info
      \<lparr>console = out, records = items, cache = set (map item.ID items), written = None\<rparr>))
   \<subseteq> set (console (updateItemsCache wowdb items info out))"
  by (auto simp: updateItemsCache_def Let_def)

lemma cacheRelatedSpells_failed:
  "s \<notin> cache st \<Longrightarrow> map_of wowdb s = None \<Longrightarrow>
   cacheRelatedSpells wowdb s st =
     st\<lparr>console := console st @ [FetchingData ''spell'' s, FailedFetchingSpell s]\<rparr>"
  by (simp add: cacheRelatedSpells_unfold fetch_failed_def)

lemma cacheRelatedSpells_cached:
  "map_of wowdb s \<noteq> None \<Longrightarrow> s \<in> cache (cacheRelatedSpells wowdb s st)"
proof (cases "s \<in> cache st")
  case True
  then show ?thesis by (simp add: cacheRelatedSpells_unfold)
next
  case False
  assume "map_of wowdb s \<noteq> None"
  then obtain sp where sp: "map_of wowdb s = Some sp" by auto
  have "cache (fetch_ok ''spell'' s sp st) \<subseteq>
      cache (cacheRelatedSpells_loop wowdb (Effects sp) (fetch_ok ''spell'' s sp st))"
    by (rule grows_cache [OF cacheRelatedSpells_grows(2)])
  with False sp show ?thesis by (auto simp: cacheRelatedSpells_unfold fetch_ok_def)
qed

lemma cacheRelatedSpells_loop_covers:
  "e \<in> set es \<Longrightarrow> AffectedSpell e \<noteq> 0 \<Longrightarrow> map_of wowdb (AffectedSpell e) \<noteq> None \<Longrightarrow>
   AffectedSpell e \<in> cache (cacheRelatedSpells_loop wowdb es st)"
proof (induction es arbitrary: st)
  case Nil
  then show ?case by simp
next
  case (Cons x es)
  let ?st = "if AffectedSpell x = 0 then st else cacheRelatedSpells wowdb (AffectedSpell x) st"
  show ?case
  proof (cases "e = x")
    case True
    with Cons.prems have "AffectedSpell e \<in> cache ?st"
      by (simp add: cacheRelatedSpells_cached)
    moreover have "cache ?st \<subseteq> cache (cacheRelatedSpells_loop wowdb es ?st)"
      by (rule grows_cache [OF cacheRelatedSpells_grows(2)])
    ultimately show ?thesis by (auto simp: cacheRelatedSpells_loop_Cons)
  next
    case False
    with Cons.prems have "e \<in> set es" by simp
    from Cons.IH [OF this Cons.prems(2,3)] show ?thesis
      by (simp add: cacheRelatedSpells_loop_Cons)
  qed
qed

text \<open>What the loops of \<^verbatim>\<open>updateSpellsCache\<close> do for one granted spell id \<open>s\<close>.\<close>

definition handled :: "(int \<times> spell) list \<Rightarrow> int \<Rightarrow> spell cache_state \<Rightarrow> bool" where
  "handled wowdb s st \<longleftrightarrow>
     (if map_of wowdb s = None then s \<in> cache st \<or> FailedFetchingSpell s \<in> set (console st)
      else s \<in> cache st)"

lemma handled_grows:
  "handled wowdb s st \<Longrightarrow> grows failed wowdb st st' \<Longrightarrow> handled wowdb s st'"
  using grows_cache [of failed wowdb st st'] grows_console [of failed wowdb st st']
  by (auto simp: handled_def split: if_splits)

lemma handled_cacheRelatedSpells: "handled wowdb s (cacheRelatedSpells wowdb s st)"
proof (cases "map_of wowdb s")
  case None
  then show ?thesis
    by (cases "s \<in> cache st") (simp_all add: handled_def cacheRelatedSpells_unfold fetch_failed_def)
next
  case (Some sp)
  then show ?thesis
    using cacheRelatedSpells_cached [of wowdb s st] by (simp add: handled_def)
qed

lemma updateSpellsCache_spells_handled:
  "(ref \<in> set refs \<or> handled wowdb (SpellID ref) st) \<Longrightarrow>
   handled wowdb (SpellID ref) (updateSpellsCache_spells wowdb refs st)"
proof (induction refs arbitrary: st)
  case Nil
  then show ?case by simp
next
  case (Cons x refs)
  have "handled wowdb (SpellID ref) (cacheRelatedSpells wowdb (SpellID x) st)"
    if "ref = x \<or> handled wowdb (SpellID ref) st"
    using that handled_cacheRelatedSpells [of wowdb "SpellID x" st]
      handled_grows [OF _ cacheRelatedSpells_grows(1), of wowdb "SpellID ref" st "SpellID x"]
    by auto
  with Cons.prems Cons.IH [of "cacheRelatedSpells wowdb (SpellID x) st"] show ?case by auto
qed

lemma updateSpellsCache_items_handled:
  "((\<exists>item \<in> set items. ref \<in> set (Spells item)) \<or> handled wowdb (SpellID ref) st) \<Longrightarrow>
   handled wowdb (SpellID ref) (updateSpellsCache_items wowdb items st)"
proof (induction items arbitrary: st)
  case Nil
  then show ?case by simp
next
  case (Cons x items)
  have "handled wowdb (SpellID ref) (updateSpellsCache_spells wowdb (Spells x) st)"
    if "ref \<in> set (Spells x) \<or> handled wowdb (SpellID ref) st"
    using that by (rule updateSpellsCache_spells_handled)
  with Cons.prems Cons.IH [of "updateSpellsCache_spells wowdb (Spells x) st"] show ?case by auto
qed

lemma updateSpellsCache_handled:
  assumes "item \<in> set items" and "ref \<in> set (Spells item)"
  shows "handled wowdb (SpellID ref) (updateSpellsCache wowdb spells items out)"
proof -
  let ?init = "\<lparr>console = out, records = spells, cache = set (map ID spells), written = None\<rparr>"
  have "handled wowdb (SpellID ref) (updateSpellsCache_items wowdb items ?init)"
    using assms by (intro updateSpellsCache_items_handled) auto
  then show ?thesis
    by (auto simp: updateSpellsCache_def Let_def handled_def split: if_splits)
qed



text \<open>
  \<open>asked n s st\<close>: \<^verbatim>\<open>downloadJson\<close> was called with the id \<open>s\<close> after the first \<open>n\<close>
  lines of the console.
\<close>

definition asked :: "nat \<Rightarrow> int \<Rightarrow> 'r cache_state \<Rightarrow> bool" where
  "asked n s st \<longleftrightarrow> s \<in> set (fetched (drop n (console st)))"

definition asked_if_cached :: "nat \<Rightarrow> int \<Rightarrow> 'r cache_state \<Rightarrow> bool" where
  "asked_if_cached n s st \<longleftrightarrow> n \<le> length (console st) \<and> (s \<in> cache st \<longrightarrow> asked n s st)"

lemma asked_grows:
  assumes "grows failed wowdb st st'" and "n \<le> length (console st)"
  shows "asked n s st \<Longrightarrow> asked n s st'"
    and "asked_if_cached n s st \<Longrightarrow> asked_if_cached n s st'"
proof -
  from assms(1) obtain log where l: "console st' = console st @ log"
    "cache st' = cache st \<union> set (fetched_ok wowdb log)"
    unfolding grows_def by blast
  from l(1) assms(2) have d: "drop n (console st') = drop n (console st) @ log" by simp
  show a: "asked n s st'" if "asked n s st"
    using that d by (simp add: asked_def)
  show "asked_if_cached n s st'" if "asked_if_cached n s st"
  proof -
    have "asked n s st'" if c: "s \<in> cache st'"
    proof (cases "s \<in> cache st")
      case True
      with \<open>asked_if_cached n s st\<close> have "asked n s st" by (simp add: asked_if_cached_def)
      then show ?thesis by (rule a)
    next
      case False
      with c l(2) have "s \<in> set (fetched log)" by (auto simp: fetched_ok_def)
      with d show ?thesis by (simp add: asked_def)
    qed
    with l(1) assms(2) show ?thesis by (simp add: asked_if_cached_def)
  qed
qed

lemma asked_fetch:
  assumes "n \<le> length (console st)"
  shows "asked n s (fetch_ok type s r st)" and "asked n s (fetch_failed type s m st)"
  using assms by (simp_all add: asked_def fetch_ok_def fetch_failed_def)

lemma updateItemsCache_loop_asked:
  "i \<in> set info \<Longrightarrow> asked_if_cached n i st \<Longrightarrow> asked n i (updateItemsCache_loop wowdb info st)"
proof (induction info arbitrary: st)
  case Nil
  then show ?case by simp
next
  case (Cons j info)
  from Cons.prems(2) have n: "n \<le> length (console st)" by (simp add: asked_if_cached_def)
  define st1 where "st1 = (if j \<in> cache st then st
      else case map_of wowdb j of
             None \<Rightarrow> fetch_failed ''item'' j (FailedFetchingItem j) st
           | Some item \<Rightarrow> fetch_ok ''item'' j item st)"
  have eq: "updateItemsCache_loop wowdb (j # info) st = updateItemsCache_loop wowdb info st1"
    by (simp add: updateItemsCache_loop_Cons st1_def split: option.splits)
  have g1: "grows FailedFetchingItem wowdb st st1"
    unfolding st1_def
    by (auto split: option.splits intro: grows_refl grows_fetch_ok grows_fetch_failed)
  have g2: "grows FailedFetchingItem wowdb st1 (updateItemsCache_loop wowdb info st1)"
    by (rule updateItemsCache_loop_grows)
  have c1: "asked_if_cached n i st1"
    using asked_grows(2) [OF g1 n Cons.prems(2)] .
  then have n1: "n \<le> length (console st1)" by (simp add: asked_if_cached_def)
  show ?case
  proof (cases "j = i")
    case True
    have "asked n i st1"
    proof (cases "i \<in> cache st")
      case True
      with Cons.prems(2) \<open>j = i\<close> show ?thesis by (simp add: st1_def asked_if_cached_def)
    next
      case False
      with \<open>j = i\<close> n show ?thesis
        by (auto simp: st1_def asked_fetch split: option.splits)
    qed
    from asked_grows(1) [OF g2 n1 this] eq show ?thesis by simp
  next
    case False
    with Cons.prems(1) have "i \<in> set info" by simp
    from Cons.IH [OF this c1] eq show ?thesis by simp
  qed
qed

lemma updateItemsCache_asked:
  assumes "i \<in> set info" and "i \<notin> item.ID ` set items"
  shows "i \<in> set (fetched (drop (length out) (console (updateItemsCache wowdb items info out))))"
proof -
  let ?init = "\<lparr>console = out, records = items, cache = set (map item.ID items), written = None\<rparr>"
  have "asked_if_cached (length out) i ?init" using assms(2) by (simp add: asked_if_cached_def)
  from updateItemsCache_loop_asked [OF assms(1) this, of wowdb]
  show ?thesis
    by (auto simp: asked_def updateItemsCache_def Let_def)
qed

lemma cacheRelatedSpells_asked:
  assumes "asked_if_cached n s st"
  shows "asked n s (cacheRelatedSpells wowdb s st)"
proof (cases "s \<in> cache st")
  case True
  with assms show ?thesis by (simp add: cacheRelatedSpells_unfold asked_if_cached_def)
next
  case False
  from assms have n: "n \<le> length (console st)" by (simp add: asked_if_cached_def)
  show ?thesis
  proof (cases "map_of wowdb s")
    case None
    with False n show ?thesis by (simp add: cacheRelatedSpells_unfold asked_fetch)
  next
    case (Some sp)
    let ?st = "fetch_ok ''spell'' s sp st"
    have "n \<le> length (console ?st)" using n by (simp add: fetch_ok_def)
    from asked_grows(1) [OF cacheRelatedSpells_grows(2) this asked_fetch(1) [OF n]] False Some
    show ?thesis by (simp add: cacheRelatedSpells_unfold)
  qed
qed

lemma updateSpellsCache_spells_asked:
  assumes "asked_if_cached n s st"
  shows "asked_if_cached n s (updateSpellsCache_spells wowdb refs st)"
    and "(\<exists>ref \<in> set refs. SpellID ref = s) \<or> asked n s st \<Longrightarrow>
         asked n s (updateSpellsCache_spells wowdb refs st)"
proof -
  from assms have n: "n \<le> length (console st)" by (simp add: asked_if_cached_def)
  have g: "grows FailedFetchingSpell wowdb st (updateSpellsCache_spells wowdb refs st)"
    by (rule updateSpellsCache_spells_grows)
  show "asked_if_cached n s (updateSpellsCache_spells wowdb refs st)"
    using asked_grows(2) [OF g n assms] .
  show "asked n s (updateSpellsCache_spells wowdb refs st)"
    if "(\<exists>ref \<in> set refs. SpellID ref = s) \<or> asked n s st"
    using that assms
  proof (induction refs arbitrary: st)
    case Nil
    then show ?case by simp
  next
    case (Cons x refs)
    let ?st = "cacheRelatedSpells wowdb (SpellID x) st"
    from Cons.prems(2) have n: "n \<le> length (console st)" by (simp add: asked_if_cached_def)
    have g: "grows FailedFetchingSpell wowdb st ?st" by (rule cacheRelatedSpells_grows(1))
    have c: "asked_if_cached n s ?st" using asked_grows(2) [OF g n Cons.prems(2)] .
    have "(\<exists>ref \<in> set refs. SpellID ref = s) \<or> asked n s ?st"
    proof (cases "SpellID x = s")
      case True
      with cacheRelatedSpells_asked [OF Cons.prems(2), of wowdb] show ?thesis by simp
    next
      case False
      with Cons.prems(1) asked_grows(1) [OF g n, of s] show ?thesis by auto
    qed
    from Cons.IH [OF this c] show ?case by simp
  qed
qed

lemma updateSpellsCache_items_asked:
  "(\<exists>item \<in> set items. \<exists>ref \<in> set (Spells item). SpellID ref = s) \<or> asked n s st \<Longrightarrow>
   asked_if_cached n s st \<Longrightarrow> asked n s (updateSpellsCache_items wowdb items st)"
proof (induction items arbitrary: st)
  case Nil
  then show ?case by simp
next
  case (Cons x items)
  let ?st = "updateSpellsCache_spells wowdb (Spells x) st"
  have c: "asked_if_cached n s ?st" using Cons.prems(2) by (rule updateSpellsCache_spells_asked(1))
  have "(\<exists>item \<in> set items. \<exists>ref \<in> set (Spells item). SpellID ref = s) \<or> asked n s ?st"
    using Cons.prems(1) updateSpellsCache_spells_asked(2) [OF Cons.prems(2), of "Spells x" wowdb]
    by auto
  from Cons.IH [OF this c] show ?case by simp
qed

lemma updateSpellsCache_asked:
  assumes "item \<in> set items" and "ref \<in> set (Spells item)" and "SpellID ref \<notin> ID ` set spells"
  shows "SpellID ref \<in> set (fetched (drop (length out)
           (console (updateSpellsCache wowdb spells items out))))"
proof -
  let ?init = "\<lparr>console = out, records = spells, cache = set (map ID spells), written = None\<rparr>"
  have "asked_if_cached (length out) (SpellID ref) ?init"
    using assms(3) by (simp add: asked_if_cached_def)
  moreover have "(\<exists>item \<in> set items. \<exists>r \<in> set (Spells item). SpellID r = SpellID ref) \<or>
      asked (length out) (SpellID ref) ?init"
    using assms(1,2) by auto
  ultimately have "asked (length out) (SpellID ref) (updateSpellsCache_items wowdb items ?init)"
    by (intro updateSpellsCache_items_asked)
  then show ?thesis
    by (auto simp: asked_def updateSpellsCache_def Let_def)
qed


section \<open>Properties\<close>

text \<open>
  Spell 20 references spell 21, which wowdb does not answer; item 200 grants spell 20.
\<close>

definition spell20 :: spell where
  "spell20 = \<lparr>ID = 20, Name = ''Trigger'', Effects = [\<lparr>Aura = False, AffectedSpell = 21\<rparr>]\<rparr>"

definition item200 :: item where
  "item200 = \<lparr>item.ID = 200, item.Name = ''Potion'', Spells = [\<lparr>SpellID = 20\<rparr>]\<rparr>"

text \<open>
  C1. A spell id that is referenced but absent from the collection: the resolver prints
  the warning and then throws. Resolving spell 20 in a collection without spell 21
  ends in a \<open>TypeError\<close>, after the warning for 21. In a run over the categories
  potions and trinkets the error ends the loop over the categories: nothing is written
  for potions, trinkets is not processed, and \<^verbatim>\<open>prepareItemAndSpellData\<close> returns
  \<open>undefined\<close>.
\<close>

theorem getAurasForItem_missing_reference_throws:
  "getAurasForItem 20 [spell20] (fresh []) =
     (Threw TypeError,
      \<lparr>console = [NoSpellData 21], auras = [], lookedup = {21, 20}, getData_calls = [20, 21]\<rparr>) \<and>
   prepareItemAndSpellData [(200, item200)] [(20, spell20)]
     [\<lparr>category = ''potions'', items_json = [], itemIDs = [200], spells_json = []\<rparr>,
      \<lparr>category = ''trinkets'', items_json = [], itemIDs = [], spells_json = []\<rparr>] [] =
     (None,
      \<lparr>console = [FetchingData ''item'' 200, NewItemsFound 1, FetchingData ''spell'' 20,
                  FetchingData ''spell'' 21, FailedFetchingSpell 21, NewSpellsFound 1,
                  NoSpellData 21, CaughtError TypeError],
         names = [(200, ''Potion'')], outputs = [], store = []\<rparr>)"
  by (simp add: prepareItemAndSpellData_def prepareItemAndSpellData_category_def
      updateItemsCache_def updateItemsCache_loop_Cons updateSpellsCache_def
      cacheRelatedSpells_unfold cacheRelatedSpells_loop_Cons fetch_ok_def fetch_failed_def
      getAurasForItem_unfold getAurasForItem_loop_Cons visit_def mark_def throws_def fresh_def
      spell20_def item200_def Let_def)

text \<open>
  C3. Spell \<open>a\<close> has an effect that references spell \<open>b\<close>, and \<open>b\<close> one that references
  \<open>a\<close>. The resolver is a total function, so the call on \<open>a\<close> ends. \<open>getData\<close> is
  called at most once for any id, and the aura map has one entry for a key. When every
  reference is in the collection, the call returns the aura map, and when it returns
  it, \<open>a\<close> and \<open>b\<close> were each processed exactly once and each has its entry if it
  grants an aura under a name that is not excluded.
\<close>

theorem cycle_terminates_each_spell_once:
  assumes "getData a spells = Some sa" and "ea \<in> set (Effects sa)"
    and "AffectedSpell ea = b" and "b \<noteq> 0"
    and "getData b spells = Some sb" and "eb \<in> set (Effects sb)" and "AffectedSpell eb = a"
    and "getAurasForItem a spells (fresh out) = (r, st')"
  shows "distinct (getData_calls st') \<and> distinct (map fst (auras st')) \<and>
         (closed spells \<longrightarrow> r = Auras) \<and>
         (r = Auras \<longrightarrow>
            count_list (getData_calls st') a = 1 \<and> count_list (getData_calls st') b = 1 \<and>
            (emits sa \<longrightarrow> map_of (auras st') a = Some (Name sa)) \<and>
            (emits sb \<longrightarrow> map_of (auras st') b = Some (Name sb)))"
proof -
  let ?c = "getAurasForItem a spells (fresh out)"
  have st': "st' = snd ?c" and r: "r = fst ?c" using assms(8) by simp_all
  have d: "distinct (getData_calls st')"
    using calls_invariant [of "fresh out" a spells] by (simp add: st')
  have k: "distinct (map fst (auras st'))"
    using keys_invariant [of "fresh out" a spells] by (simp add: st')
  have calls: "set (getData_calls st') = lookedup st'"
    using calls_lookedup [of "fresh out" a spells] by (simp add: st')
  have nu: "r \<noteq> Undefined"
    using outcome_cases(1) [of a spells "fresh out"] by (simp add: r)
  have cl: "r = Auras" if "closed spells"
  proof -
    from assms(1) have "a \<in> ID ` set spells" using getData_None_iff [of a spells] by auto
    with that have "\<not> throws r" unfolding r by (rule closed_no_throw(1))
    with nu show ?thesis by (cases r) (auto simp: throws_def)
  qed
  have once: "count_list (getData_calls st') a = 1 \<and> count_list (getData_calls st') b = 1 \<and>
            (emits sa \<longrightarrow> map_of (auras st') a = Some (Name sa)) \<and>
            (emits sb \<longrightarrow> map_of (auras st') b = Some (Name sb))" if "r = Auras"
  proof -
    from that have nt: "\<not> throws (fst ?c)" by (simp add: r throws_def)
    have va: "a \<in> lookedup st'" unfolding st' by (rule root_visited)
    have vb: "b \<in> lookedup st'"
      using visited_closed(1) [OF nt _ assms(1) assms(2)] va assms(3,4) by (simp add: st')
    have "recorded spells st' a"
      using visited_recorded(1) [OF nt, of a] va by (simp add: st')
    moreover have "recorded spells st' b"
      using visited_recorded(1) [OF nt, of b] vb by (simp add: st')
    ultimately show ?thesis
      using d calls va vb assms(1,5) by (simp add: count_list_distinct recorded_def)
  qed
  from d k cl once show ?thesis by blast
qed

definition spell30 :: spell where
  "spell30 = \<lparr>ID = 30, Name = ''Haste Boost'', Effects = [\<lparr>Aura = True, AffectedSpell = 31\<rparr>]\<rparr>"

definition spell31 :: spell where
  "spell31 = \<lparr>ID = 31, Name = ''Regen'', Effects = [\<lparr>Aura = True, AffectedSpell = 30\<rparr>]\<rparr>"

lemma cycle_run:
  "getAurasForItem 30 [spell30, spell31] (fresh []) =
     (Auras, \<lparr>console = [], auras = [(30, ''Haste Boost''), (31, ''Regen'')],
               lookedup = {31, 30}, getData_calls = [30, 31]\<rparr>)"
  by (simp add: getAurasForItem_unfold getAurasForItem_loop_Cons spell30_def spell31_def
      fresh_def visit_def mark_def blacklist_def throws_def)

theorem cycle_terminates_each_spell_once_witness:
  "getData 30 [spell30, spell31] = Some spell30 \<and>
   \<lparr>Aura = True, AffectedSpell = 31\<rparr> \<in> set (Effects spell30) \<and>
   getData 31 [spell30, spell31] = Some spell31 \<and>
   \<lparr>Aura = True, AffectedSpell = 30\<rparr> \<in> set (Effects spell31) \<and>
   closed [spell30, spell31] \<and>
   getAurasForItem 30 [spell30, spell31] (fresh []) =
     (Auras, \<lparr>console = [], auras = [(30, ''Haste Boost''), (31, ''Regen'')],
               lookedup = {31, 30}, getData_calls = [30, 31]\<rparr>) \<and>
   count_list [30, 31] (30::int) = 1 \<and> count_list [30, 31] (31::int) = 1"
proof -
  let ?st = "\<lparr>console = [], auras = [(30, ''Haste Boost''), (31, ''Regen'')],
               lookedup = {31, 30}, getData_calls = [30, 31]\<rparr>"
  have h1: "getData 30 [spell30, spell31] = Some spell30" by (simp add: spell30_def)
  have h2: "\<lparr>Aura = True, AffectedSpell = 31\<rparr> \<in> set (Effects spell30)" by (simp add: spell30_def)
  have h3: "AffectedSpell \<lparr>Aura = True, AffectedSpell = 31\<rparr> = 31" by simp
  have h4: "(31::int) \<noteq> 0" by simp
  have h5: "getData 31 [spell30, spell31] = Some spell31" by (simp add: spell30_def spell31_def)
  have h6: "\<lparr>Aura = True, AffectedSpell = 30\<rparr> \<in> set (Effects spell31)" by (simp add: spell31_def)
  have h7: "AffectedSpell \<lparr>Aura = True, AffectedSpell = 30\<rparr> = 30" by simp
  have h8: "closed [spell30, spell31]" by (simp add: closed_def spell30_def spell31_def)
  note h9 = cycle_run
  from cycle_terminates_each_spell_once [OF h1 h2 h3 h4 h5 h6 h7 h9]
  have "count_list (getData_calls ?st) 30 = 1 \<and> count_list (getData_calls ?st) 31 = 1" by blast
  then have "count_list [30, 31] (30::int) = 1 \<and> count_list [30, 31] (31::int) = 1" by simp
  with h1 h2 h5 h6 h8 h9 show ?thesis by blast
qed

text \<open>
  C4. A spell of the collection whose name is in the exclusion set: its id is not a key
  of the aura map that a top-level call of the resolver builds, whatever its effects
  say and whichever spell the call starts from; and it is not a key of any aura map
  in the category mapping built for any list of items.
\<close>

theorem excluded_name_never_an_aura:
  assumes "getData k spells = Some sd" and "Name sd \<in> blacklist"
  shows "k \<notin> fst ` set (auras (snd (getAurasForItem spellID spells (fresh out)))) \<and>
         (categoryData st = [] \<longrightarrow>
            (\<forall>(itemID, am) \<in> set (categoryData (snd (prepareItemAndSpellData_items items spells st))).
               k \<notin> fst ` set am))"
proof -
  have "no_key k (categoryData (snd (prepareItemAndSpellData_items items spells st)))"
    if "categoryData st = []"
    using items_loop_no_key [OF assms, of st items] that by (simp add: no_key_def)
  with no_excluded_key [OF assms] show ?thesis by (simp add: no_key_def)
qed

definition spell40 :: spell where
  "spell40 = \<lparr>ID = 40, Name = ''Food'', Effects = [\<lparr>Aura = True, AffectedSpell = 41\<rparr>]\<rparr>"

definition spell41 :: spell where
  "spell41 = \<lparr>ID = 41, Name = ''Well Fed'', Effects = [\<lparr>Aura = True, AffectedSpell = 0\<rparr>]\<rparr>"

definition item300 :: item where
  "item300 = \<lparr>item.ID = 300, item.Name = ''Bread'', Spells = [\<lparr>SpellID = 40\<rparr>]\<rparr>"

lemma excluded_run:
  "prepareItemAndSpellData_items [item300] [spell40, spell41]
     \<lparr>console = [], categoryData = [], itemsCache = {300}, itemNames = []\<rparr> =
   (None, \<lparr>console = [], categoryData = [(300, [(41, ''Well Fed'')])], itemsCache = {},
            itemNames = [(300, ''Bread'')]\<rparr>)"
  by (simp add: getAurasForItem_unfold getAurasForItem_loop_Cons spell40_def spell41_def
      item300_def fresh_def visit_def mark_def blacklist_def throws_def)

theorem excluded_name_never_an_aura_witness:
  "getData 40 [spell40, spell41] = Some spell40 \<and> Name spell40 \<in> blacklist \<and>
   \<lparr>Aura = True, AffectedSpell = 41\<rparr> \<in> set (Effects spell40) \<and>
   40 \<notin> fst ` set (auras (snd (getAurasForItem 40 [spell40, spell41] (fresh [])))) \<and>
   categoryData (snd (prepareItemAndSpellData_items [item300] [spell40, spell41]
        \<lparr>console = [], categoryData = [], itemsCache = {300}, itemNames = []\<rparr>)) =
     [(300, [(41, ''Well Fed'')])] \<and>
   (40::int) \<notin> fst ` set [(41::int, ''Well Fed'')]"
proof -
  let ?st = "\<lparr>console = [], categoryData = [], itemsCache = {300}, itemNames = []\<rparr>"
  have h1: "getData 40 [spell40, spell41] = Some spell40" by (simp add: spell40_def)
  have h2: "Name spell40 \<in> blacklist" by (simp add: spell40_def blacklist_def)
  have h3: "\<lparr>Aura = True, AffectedSpell = 41\<rparr> \<in> set (Effects spell40)" by (simp add: spell40_def)
  have h4: "categoryData ?st = []" by simp
  have h5: "categoryData (snd (prepareItemAndSpellData_items [item300] [spell40, spell41] ?st)) =
     [(300, [(41, ''Well Fed'')])]" unfolding excluded_run by simp
  from excluded_name_never_an_aura [OF h1 h2, of 40 "[]" ?st "[item300]"] h4
  have a: "40 \<notin> fst ` set (auras (snd (getAurasForItem 40 [spell40, spell41] (fresh []))))"
    and b: "\<forall>(itemID, am) \<in> set (categoryData (snd (prepareItemAndSpellData_items [item300] [spell40, spell41] ?st))).
      40 \<notin> fst ` set am" by blast+
  from b have "(40::int) \<notin> fst ` set [(41::int, ''Well Fed'')]" unfolding h5 by simp
  with h1 h2 h3 h5 a show ?thesis by blast
qed

text \<open>
  C10. An excluded spell that the traversal reaches is still followed: when the call
  returns the aura map, every spell that an effect of the excluded spell references
  has been looked up, and it has its entry if it grants an aura under a name that is
  not excluded.
\<close>

theorem exclusion_does_not_prune:
  assumes "getAurasForItem spellID spells (fresh out) = (Auras, st')"
    and "s \<in> lookedup st'" and "getData s spells = Some sd" and "Name sd \<in> blacklist"
    and "e \<in> set (Effects sd)" and "AffectedSpell e \<noteq> 0"
  shows "AffectedSpell e \<in> lookedup st' \<and>
         (\<forall>td. getData (AffectedSpell e) spells = Some td \<longrightarrow> Name td \<notin> blacklist \<longrightarrow>
               (\<exists>e' \<in> set (Effects td). Aura e') \<longrightarrow>
               map_of (auras st') (AffectedSpell e) = Some (Name td))"
proof -
  let ?c = "getAurasForItem spellID spells (fresh out)"
  have st': "st' = snd ?c" using assms(1) by simp
  have nt: "\<not> throws (fst ?c)" using assms(1) by (simp add: throws_def)
  have v: "AffectedSpell e \<in> lookedup st'"
    using visited_closed(1) [OF nt _ assms(3) assms(5) assms(6)] assms(2) by (simp add: st')
  have "recorded spells st' (AffectedSpell e)"
    using visited_recorded(1) [OF nt, of "AffectedSpell e"] v by (simp add: st')
  with v show ?thesis by (simp add: recorded_def emits_def)
qed

definition spell50 :: spell where
  "spell50 = \<lparr>ID = 50, Name = ''Drink'', Effects = [\<lparr>Aura = True, AffectedSpell = 51\<rparr>]\<rparr>"

definition spell51 :: spell where
  "spell51 = \<lparr>ID = 51, Name = ''Mana Regeneration'', Effects = [\<lparr>Aura = True, AffectedSpell = 0\<rparr>]\<rparr>"

lemma drink_run:
  "getAurasForItem 50 [spell50, spell51] (fresh []) =
     (Auras, \<lparr>console = [], auras = [(51, ''Mana Regeneration'')], lookedup = {51, 50},
               getData_calls = [50, 51]\<rparr>)"
  by (simp add: getAurasForItem_unfold getAurasForItem_loop_Cons spell50_def spell51_def
      fresh_def visit_def mark_def blacklist_def throws_def)

theorem exclusion_does_not_prune_witness:
  "getAurasForItem 50 [spell50, spell51] (fresh []) =
     (Auras, \<lparr>console = [], auras = [(51, ''Mana Regeneration'')], lookedup = {51, 50},
               getData_calls = [50, 51]\<rparr>) \<and>
   getData 50 [spell50, spell51] = Some spell50 \<and> Name spell50 \<in> blacklist \<and>
   \<lparr>Aura = True, AffectedSpell = 51\<rparr> \<in> set (Effects spell50) \<and>
   getData 51 [spell50, spell51] = Some spell51 \<and> Name spell51 \<notin> blacklist \<and>
   \<lparr>Aura = True, AffectedSpell = 0\<rparr> \<in> set (Effects spell51) \<and>
   map_of [(51, ''Mana Regeneration'')] (51::int) = Some (Name spell51)"
proof -
  let ?st = "\<lparr>console = [], auras = [(51, ''Mana Regeneration'')], lookedup = {51, 50},
               getData_calls = [50, 51]\<rparr>"
  let ?e = "\<lparr>Aura = True, AffectedSpell = 51\<rparr>"
  note h1 = drink_run
  have h2: "50 \<in> lookedup ?st" by simp
  have h3: "getData 50 [spell50, spell51] = Some spell50" by (simp add: spell50_def)
  have h4: "Name spell50 \<in> blacklist" by (simp add: spell50_def blacklist_def)
  have h5: "?e \<in> set (Effects spell50)" by (simp add: spell50_def)
  have h6: "AffectedSpell ?e \<noteq> 0" by simp
  have h7: "getData 51 [spell50, spell51] = Some spell51" by (simp add: spell50_def spell51_def)
  have h8: "Name spell51 \<notin> blacklist" by (simp add: spell51_def blacklist_def)
  have h9: "\<exists>e' \<in> set (Effects spell51). Aura e'" by (simp add: spell51_def)
  from exclusion_does_not_prune [OF h1 h2 h3 h4 h5 h6] h7 h8 h9
  have "map_of (auras ?st) (AffectedSpell ?e) = Some (Name spell51)" by simp
  then have "map_of [(51, ''Mana Regeneration'')] (51::int) = Some (Name spell51)" by simp
  moreover have "\<lparr>Aura = True, AffectedSpell = 0\<rparr> \<in> set (Effects spell51)"
    by (simp add: spell51_def)
  ultimately show ?thesis using h1 h3 h4 h5 h7 h8 by blast
qed

text \<open>Item 100 grants spells 10 and 11, and each of the two grants an aura.\<close>

definition spell10 :: spell where
  "spell10 = \<lparr>ID = 10, Name = ''Haste Boost'', Effects = [\<lparr>Aura = True, AffectedSpell = 0\<rparr>]\<rparr>"

definition spell11 :: spell where
  "spell11 = \<lparr>ID = 11, Name = ''Regen'', Effects = [\<lparr>Aura = True, AffectedSpell = 0\<rparr>]\<rparr>"

definition item100 :: item where
  "item100 = \<lparr>item.ID = 100, item.Name = ''Charm'', Spells = [\<lparr>SpellID = 10\<rparr>, \<lparr>SpellID = 11\<rparr>]\<rparr>"

lemmas two_spells_defs =
  getAurasForItem_unfold getAurasForItem_loop_Cons spell10_def spell11_def item100_def
  fresh_def visit_def mark_def blacklist_def throws_def

text \<open>
  C2. An item that grants several spells should end with the union of the aura maps
  of its granted spells. The code does not build it: every call
  \<^verbatim>\<open>getAurasForItem(spell.SpellID, spells)\<close> starts from a new aura map, and
  \<^verbatim>\<open>categoryData.set(item.ID, auras)\<close> puts that map in the place of the one stored
  for the granted spell before. Resolving spell 10 finds the aura 10 and resolving
  spell 11 finds the aura 11, but the entry of item 100 in the category mapping holds
  11 alone: the aura 10 is lost.
\<close>

theorem granted_spells_not_merged:
  "auras (snd (getAurasForItem 10 [spell10, spell11] (fresh []))) = [(10, ''Haste Boost'')] \<and>
   auras (snd (getAurasForItem 11 [spell10, spell11] (fresh []))) = [(11, ''Regen'')] \<and>
   prepareItemAndSpellData_items [item100] [spell10, spell11]
     \<lparr>console = [], categoryData = [], itemsCache = {100}, itemNames = []\<rparr> =
   (None, \<lparr>console = [], categoryData = [(100, [(11, ''Regen'')])], itemsCache = {},
            itemNames = [(100, ''Charm'')]\<rparr>) \<and>
   map_of [(11, ''Regen'')] (10::int) = None"
  by (simp add: two_spells_defs)

text \<open>
  C5. The item cache updater, for a loaded cache without duplicate ids and a wowdb
  that answers a request with the record of the requested id. What it writes is the
  collection it returns, sorted by strictly ascending id. The id set it returns is the
  ids of the loaded cache together with the ids fetched with success during the run,
  which are the ids of the listing that wowdb answers; it is the set of the ids of the
  returned collection, in which no id occurs twice, so that the next run loads a
  cache without duplicate ids again.
\<close>

theorem items_cache_sorted_and_complete:
  assumes "distinct (map item.ID items)"
    and "\<forall>i it. map_of wowdb i = Some it \<longrightarrow> item.ID it = i"
    and "updateItemsCache wowdb items info out = r"
  shows "(\<forall>xs. written r = Some xs \<longrightarrow> xs = records r \<and> sorted_wrt (<) (map item.ID xs)) \<and>
         cache r = item.ID ` set items \<union> set (fetched_ok wowdb (drop (length out) (console r))) \<and>
         cache r = item.ID ` set items \<union> {i \<in> set info. map_of wowdb i \<noteq> None} \<and>
         cache r = item.ID ` set (records r) \<and>
         distinct (map item.ID (records r))"
proof -
  have u: "updated FailedFetchingItem item.ID wowdb items out r"
    using updateItemsCache_updated [of wowdb items out info] assms(3) by simp
  then obtain log where "console r = out @ log"
    "cache r = item.ID ` set items \<union> set (fetched_ok wowdb log)"
    unfolding updated_def by blast
  then have "cache r = item.ID ` set items \<union> set (fetched_ok wowdb (drop (length out) (console r)))"
    by simp
  moreover have "cache r = item.ID ` set items \<union> {i \<in> set info. map_of wowdb i \<noteq> None}"
    using updateItemsCache_cache [of wowdb items info out] assms(3) by simp
  ultimately show ?thesis
    using updated_distinct [OF u assms(1,2)] by blast
qed

definition item3 :: item where "item3 = \<lparr>item.ID = 3, item.Name = ''Elixir'', Spells = []\<rparr>"
definition item5 :: item where "item5 = \<lparr>item.ID = 5, item.Name = ''Flask'', Spells = []\<rparr>"
definition item9 :: item where "item9 = \<lparr>item.ID = 9, item.Name = ''Potion'', Spells = []\<rparr>"

lemma items_run:
  "updateItemsCache [(3, item3), (9, item9)] [item5] [9, 3, 7, 5] [] =
     \<lparr>console = [FetchingData ''item'' 9, FetchingData ''item'' 3, FetchingData ''item'' 7,
                 FailedFetchingItem 7, NewItemsFound 2],
      records = [item3, item5, item9], cache = {3, 9, 5},
      written = Some [item3, item5, item9]\<rparr>"
  by (simp add: updateItemsCache_def updateItemsCache_loop_Cons fetch_ok_def fetch_failed_def
      item3_def item5_def item9_def Let_def)

theorem items_cache_sorted_and_complete_witness:
  "distinct (map item.ID [item5]) \<and>
   updateItemsCache [(3, item3), (9, item9)] [item5] [9, 3, 7, 5] [] =
     \<lparr>console = [FetchingData ''item'' 9, FetchingData ''item'' 3, FetchingData ''item'' 7,
                 FailedFetchingItem 7, NewItemsFound 2],
      records = [item3, item5, item9], cache = {3, 9, 5},
      written = Some [item3, item5, item9]\<rparr> \<and>
   sorted_wrt (<) (map item.ID [item3, item5, item9]) \<and>
   {3, 9, 5} = item.ID ` set [item5] \<union> {i \<in> set [9, 3, 7, 5]. map_of [(3, item3), (9, item9)] i \<noteq> None}"
proof -
  let ?wowdb = "[(3, item3), (9, item9)]"
  let ?r = "\<lparr>console = [FetchingData ''item'' 9, FetchingData ''item'' 3, FetchingData ''item'' 7,
                 FailedFetchingItem 7, NewItemsFound 2],
      records = [item3, item5, item9], cache = {3, 9, 5},
      written = Some [item3, item5, item9]\<rparr>"
  have h1: "distinct (map item.ID [item5])" by simp
  have h2: "\<forall>i it. map_of ?wowdb i = Some it \<longrightarrow> item.ID it = i"
    by (simp add: item3_def item9_def)
  note h3 = items_run
  note t = items_cache_sorted_and_complete [OF h1 h2 h3]
  have w: "written ?r = Some [item3, item5, item9]" by simp
  have a: "sorted_wrt (<) (map item.ID [item3, item5, item9])"
    by (rule t [THEN conjunct1, THEN spec, THEN mp, OF w, THEN conjunct2])
  have "cache ?r = item.ID ` set [item5] \<union> {i \<in> set [9, 3, 7, 5]. map_of ?wowdb i \<noteq> None}"
    by (rule t [THEN conjunct2, THEN conjunct2, THEN conjunct1])
  then have b: "{3, 9, 5} = item.ID ` set [item5] \<union> {i \<in> set [9, 3, 7, 5]. map_of ?wowdb i \<noteq> None}"
    by (simp only: cache_state.simps)
  from h1 h3 a b show ?thesis by (intro conjI)
qed

text \<open>
  C8. Both updaters write if and only if the id set grew. As long as no fetch of the
  run was answered, nothing is written and the collection is returned as it was
  loaded; otherwise the collection is sorted by id, and what is written is the
  collection that is returned.
\<close>

theorem persist_iff_grown:
  assumes "updateItemsCache wowdb_items items info out = r"
    and "updateSpellsCache wowdb_spells spells items' out' = r'"
  shows "((written r = None \<longleftrightarrow> cache r = item.ID ` set items) \<and>
          (written r = None \<longleftrightarrow> fetched_ok wowdb_items (drop (length out) (console r)) = []) \<and>
          (written r = None \<longrightarrow> records r = items) \<and>
          (written r \<noteq> None \<longrightarrow> written r = Some (records r) \<and> sorted (map item.ID (records r)))) \<and>
         (written r' = None \<longleftrightarrow> cache r' = ID ` set spells) \<and>
         (written r' = None \<longleftrightarrow> fetched_ok wowdb_spells (drop (length out') (console r')) = []) \<and>
         (written r' = None \<longrightarrow> records r' = spells) \<and>
         (written r' \<noteq> None \<longrightarrow> written r' = Some (records r') \<and> sorted (map ID (records r')))"
proof -
  have gen: "(written r = None \<longleftrightarrow> cache r = key ` set xs) \<and>
         (written r = None \<longleftrightarrow> fetched_ok wowdb (drop (length out) (console r)) = []) \<and>
         (written r = None \<longrightarrow> records r = xs) \<and>
         (written r \<noteq> None \<longrightarrow> written r = Some (records r) \<and> sorted (map key (records r)))"
    if u: "updated failed key wowdb xs out r"
    for failed and key :: "'r \<Rightarrow> int" and wowdb xs out r
  proof -
    from u obtain log new where u:
      "console r = out @ log"
      "set (fetched log) \<inter> key ` set xs = {}"
      "cache r = key ` set xs \<union> set (fetched_ok wowdb log)"
      "if fetched_ok wowdb log = [] then records r = xs \<and> written r = None
       else records r = sort_key key (xs @ new) \<and> written r = Some (records r)"
      unfolding updated_def by blast
    have l: "drop (length out) (console r) = log" using u(1) by simp
    have d: "set (fetched_ok wowdb log) \<inter> key ` set xs = {}"
      using u(2) by (auto simp: fetched_ok_def)
    have c: "cache r = key ` set xs \<longleftrightarrow> fetched_ok wowdb log = []"
    proof
      assume "cache r = key ` set xs"
      with u(3) have "key ` set xs = key ` set xs \<union> set (fetched_ok wowdb log)" by simp
      then have "set (fetched_ok wowdb log) \<subseteq> key ` set xs" by (metis sup_ge2)
      with d have "set (fetched_ok wowdb log) = {}" by (metis inf.absorb1)
      then show "fetched_ok wowdb log = []" by simp
    next
      assume "fetched_ok wowdb log = []"
      with u(3) show "cache r = key ` set xs" by simp
    qed
    show ?thesis
    proof (cases "fetched_ok wowdb log = []")
      case True
      with u(4) c l show ?thesis by simp
    next
      case False
      with u(4) c l show ?thesis by (simp add: sorted_sort_key)
    qed
  qed
  show ?thesis
    using gen [OF updateItemsCache_updated [of wowdb_items items out info]]
      gen [OF updateSpellsCache_updated [of wowdb_spells spells out' items']]
    unfolding assms by (rule conjI)
qed


definition item15 :: item where
  "item15 = \<lparr>item.ID = 15, item.Name = ''Flask'', Spells = []\<rparr>"

definition spell60 :: spell where
  "spell60 = \<lparr>ID = 60, Name = ''Trigger'', Effects = [\<lparr>Aura = False, AffectedSpell = 61\<rparr>]\<rparr>"

definition spell61 :: spell where
  "spell61 = \<lparr>ID = 61, Name = ''Regen'', Effects = [\<lparr>Aura = True, AffectedSpell = 0\<rparr>]\<rparr>"

definition item600 :: item where
  "item600 = \<lparr>item.ID = 600, item.Name = ''Potion'', Spells = [\<lparr>SpellID = 60\<rparr>]\<rparr>"

lemma nothing_new_run:
  "updateItemsCache [] [item15] [15, 17] [] =
     \<lparr>console = [FetchingData ''item'' 17, FailedFetchingItem 17],
      records = [item15], cache = {15}, written = None\<rparr>"
  by (simp add: updateItemsCache_def updateItemsCache_loop_Cons fetch_ok_def fetch_failed_def
      item15_def Let_def)

lemma one_new_spell_run:
  "updateSpellsCache [(60, spell60), (61, spell61)] [spell61] [item600] [] =
     \<lparr>console = [FetchingData ''spell'' 60, NewSpellsFound 1],
      records = [spell60, spell61], cache = {60, 61}, written = Some [spell60, spell61]\<rparr>"
  by (simp add: updateSpellsCache_def cacheRelatedSpells_unfold cacheRelatedSpells_loop_Cons
      fetch_ok_def fetch_failed_def item600_def spell60_def spell61_def Let_def insert_commute)

theorem persist_iff_grown_witness:
  "updateItemsCache [] [item15] [15, 17] [] =
     \<lparr>console = [FetchingData ''item'' 17, FailedFetchingItem 17],
      records = [item15], cache = {15}, written = None\<rparr> \<and>
   updateSpellsCache [(60, spell60), (61, spell61)] [spell61] [item600] [] =
     \<lparr>console = [FetchingData ''spell'' 60, NewSpellsFound 1],
      records = [spell60, spell61], cache = {60, 61}, written = Some [spell60, spell61]\<rparr> \<and>
   {15} = item.ID ` set [item15] \<and>
   sorted (map ID [spell60, spell61])"
proof -
  let ?r = "\<lparr>console = [FetchingData ''item'' 17, FailedFetchingItem 17],
      records = [item15], cache = {15::int}, written = None\<rparr>"
  let ?r' = "\<lparr>console = [FetchingData ''spell'' 60, NewSpellsFound 1],
      records = [spell60, spell61], cache = {60::int, 61}, written = Some [spell60, spell61]\<rparr>"
  note t = persist_iff_grown [OF nothing_new_run one_new_spell_run]
  have n: "written ?r = None" by simp
  have s: "written ?r' \<noteq> None" by simp
  have "cache ?r = item.ID ` set [item15]"
    by (rule t [THEN conjunct1, THEN conjunct1, THEN iffD1, OF n])
  then have a: "{15} = item.ID ` set [item15]" by (simp only: cache_state.simps)
  have "sorted (map ID (records ?r'))"
    by (rule t [THEN conjunct2, THEN conjunct2, THEN conjunct2, THEN conjunct2, THEN mp, OF s,
        THEN conjunct2])
  then have b: "sorted (map ID [spell60, spell61])" by (simp only: cache_state.simps)
  from nothing_new_run one_new_spell_run a b show ?thesis by (intro conjI)
qed

text \<open>
  C9. The updaters only add. Every loaded record is in the returned collection, which
  is the loaded collection with records appended, sorted when something was written;
  every loaded id is in the returned id set. \<^verbatim>\<open>cacheRelatedSpells\<close> appends to the
  collection it is given, adds to the id set, and writes nothing.
\<close>

theorem cache_updates_only_append:
  "(set items \<subseteq> set (records (updateItemsCache wowdb_items items info out)) \<and>
    item.ID ` set items \<subseteq> cache (updateItemsCache wowdb_items items info out) \<and>
    (\<exists>new. records (updateItemsCache wowdb_items items info out) = items @ new \<or>
           records (updateItemsCache wowdb_items items info out) = sort_key item.ID (items @ new))) \<and>
   (set spells \<subseteq> set (records (updateSpellsCache wowdb spells items' out')) \<and>
    ID ` set spells \<subseteq> cache (updateSpellsCache wowdb spells items' out') \<and>
    (\<exists>new. records (updateSpellsCache wowdb spells items' out') = spells @ new \<or>
           records (updateSpellsCache wowdb spells items' out') = sort_key ID (spells @ new))) \<and>
   ((\<exists>new. records (cacheRelatedSpells wowdb s st) = records st @ new) \<and>
    cache st \<subseteq> cache (cacheRelatedSpells wowdb s st) \<and>
    written (cacheRelatedSpells wowdb s st) = written st)"
proof (intro conjI)
  note u = updateItemsCache_updated [of wowdb_items items out info]
  show "set items \<subseteq> set (records (updateItemsCache wowdb_items items info out))"
    by (rule updated_kept(1) [OF u])
  show "item.ID ` set items \<subseteq> cache (updateItemsCache wowdb_items items info out)"
    by (rule updated_kept(2) [OF u])
  show "\<exists>new. records (updateItemsCache wowdb_items items info out) = items @ new \<or>
           records (updateItemsCache wowdb_items items info out) = sort_key item.ID (items @ new)"
    by (rule updated_records [OF u])
next
  note u = updateSpellsCache_updated [of wowdb spells out' items']
  show "set spells \<subseteq> set (records (updateSpellsCache wowdb spells items' out'))"
    by (rule updated_kept(1) [OF u])
  show "ID ` set spells \<subseteq> cache (updateSpellsCache wowdb spells items' out')"
    by (rule updated_kept(2) [OF u])
  show "\<exists>new. records (updateSpellsCache wowdb spells items' out') = spells @ new \<or>
           records (updateSpellsCache wowdb spells items' out') = sort_key ID (spells @ new)"
    by (rule updated_records [OF u])
next
  note g = cacheRelatedSpells_grows(1) [of wowdb st s]
  show "\<exists>new. records (cacheRelatedSpells wowdb s st) = records st @ new"
    by (rule grows_records [OF g])
  show "cache st \<subseteq> cache (cacheRelatedSpells wowdb s st)"
    by (rule grows_cache [OF g])
  show "written (cacheRelatedSpells wowdb s st) = written st"
    using g by (simp add: grows_def)
qed

text \<open>
  C6. A failed fetch stays with its id. In the item updater and in the spell updater
  every listed or granted id that wowdb answers ends up in the id set, whatever failed
  before it; an id that wowdb does not answer and that was not cached stays out of the
  id set, and its failure is on the console. A failed \<^verbatim>\<open>cacheRelatedSpells\<close> changes
  the console alone, and the loop over the effects reaches every effect. The updaters
  are total functions into the state they return: a failed fetch has no way out of
  them. In the spell updater no id that wowdb does not answer comes into the id set,
  granted or referenced by an effect, and every failed fetch has its line. With a
  wowdb that answers with the record of the requested id, the ids of the collection
  are the id set, so that the failed id is not in the collection either; and then a
  run that loads the returned collection asks again for every listed item id and for
  every spell id granted by an item that is not in the id set. Not every failed id is
  asked for again by the next run: spell 95 is cached and
  the fetch of spell 96, which an effect of 95 references, has failed; the next run
  returns at the guard for 95 and does not ask for 96.
\<close>

theorem fetch_failure_is_local:
  assumes "updateItemsCache wowdb_items items info out = r"
    and "updateSpellsCache wowdb_spells spells items' out' = r'"
  shows
   "(\<forall>i \<in> set info.
       (map_of wowdb_items i \<noteq> None \<longrightarrow> i \<in> cache r) \<and>
       (map_of wowdb_items i = None \<longrightarrow> i \<notin> item.ID ` set items \<longrightarrow>
          i \<notin> cache r \<and> FailedFetchingItem i \<in> set (console r))) \<and>
    (\<forall>item \<in> set items'. \<forall>ref \<in> set (Spells item).
       (map_of wowdb_spells (SpellID ref) \<noteq> None \<longrightarrow> SpellID ref \<in> cache r') \<and>
       (map_of wowdb_spells (SpellID ref) = None \<longrightarrow> SpellID ref \<notin> ID ` set spells \<longrightarrow>
          SpellID ref \<notin> cache r' \<and> FailedFetchingSpell (SpellID ref) \<in> set (console r'))) \<and>
    (\<forall>s st. s \<notin> cache st \<longrightarrow> map_of wowdb_spells s = None \<longrightarrow>
       cacheRelatedSpells wowdb_spells s st =
         st\<lparr>console := console st @ [FetchingData ''spell'' s, FailedFetchingSpell s]\<rparr>) \<and>
    (\<forall>es st. \<forall>e \<in> set es. AffectedSpell e \<noteq> 0 \<longrightarrow> map_of wowdb_spells (AffectedSpell e) \<noteq> None \<longrightarrow>
       AffectedSpell e \<in> cache (cacheRelatedSpells_loop wowdb_spells es st)) \<and>
    ((\<forall>i it. map_of wowdb_items i = Some it \<longrightarrow> item.ID it = i) \<longrightarrow>
       item.ID ` set (records r) = cache r) \<and>
    ((\<forall>i sp. map_of wowdb_spells i = Some sp \<longrightarrow> ID sp = i) \<longrightarrow>
       ID ` set (records r') = cache r') \<and>
    (\<forall>s. map_of wowdb_spells s = None \<longrightarrow> s \<notin> ID ` set spells \<longrightarrow> s \<notin> cache r') \<and>
    (\<forall>s \<in> set (fetched (drop (length out') (console r'))).
       map_of wowdb_spells s = None \<longrightarrow> FailedFetchingSpell s \<in> set (console r')) \<and>
    ((\<forall>i it. map_of wowdb_items i = Some it \<longrightarrow> item.ID it = i) \<longrightarrow>
       (\<forall>next_wowdb next_info next_out. \<forall>i \<in> set next_info. i \<notin> cache r \<longrightarrow>
          i \<in> set (fetched (drop (length next_out)
                 (console (updateItemsCache next_wowdb (records r) next_info next_out)))))) \<and>
    ((\<forall>i sp. map_of wowdb_spells i = Some sp \<longrightarrow> ID sp = i) \<longrightarrow>
       (\<forall>next_wowdb next_items next_out. \<forall>item \<in> set next_items. \<forall>ref \<in> set (Spells item).
          SpellID ref \<notin> cache r' \<longrightarrow>
          SpellID ref \<in> set (fetched (drop (length next_out)
                 (console (updateSpellsCache next_wowdb (records r') next_items next_out))))))"
proof (intro conjI ballI allI impI)
  note u = updateItemsCache_updated [of wowdb_items items out info, unfolded assms(1)]
  note u' = updateSpellsCache_updated [of wowdb_spells spells out' items', unfolded assms(2)]
  {
    fix i assume i: "i \<in> set info"
    show "i \<in> cache r" if "map_of wowdb_items i \<noteq> None"
      using that i updateItemsCache_cache [of wowdb_items items info out] assms(1) by simp
    show "i \<notin> cache r" if "map_of wowdb_items i = None" "i \<notin> item.ID ` set items"
      using updated_absent [OF u that] .
    show "FailedFetchingItem i \<in> set (console r)"
      if "map_of wowdb_items i = None" "i \<notin> item.ID ` set items"
    proof -
      have "FailedFetchingItem i \<in> set (console (updateItemsCache_loop wowdb_items info
          \<lparr>console = out, records = items, cache = set (map item.ID items), written = None\<rparr>))"
        using i that by (intro updateItemsCache_loop_failed) simp_all
      with updateItemsCache_console [of wowdb_items info out items] assms(1)
      show ?thesis by auto
    qed
  }
  {
    fix item ref assume ir: "item \<in> set items'" "ref \<in> set (Spells item)"
    note h = updateSpellsCache_handled [OF ir, of wowdb_spells spells out', unfolded assms(2)]
    show "SpellID ref \<in> cache r'" if "map_of wowdb_spells (SpellID ref) \<noteq> None"
      using h that by (simp add: handled_def)
    show a: "SpellID ref \<notin> cache r'"
      if "map_of wowdb_spells (SpellID ref) = None" "SpellID ref \<notin> ID ` set spells"
      using updated_absent [OF u' that] .
    show "FailedFetchingSpell (SpellID ref) \<in> set (console r')"
      if "map_of wowdb_spells (SpellID ref) = None" "SpellID ref \<notin> ID ` set spells"
      using h that a [OF that] by (simp add: handled_def)
  }
  show "cacheRelatedSpells wowdb_spells s st =
         st\<lparr>console := console st @ [FetchingData ''spell'' s, FailedFetchingSpell s]\<rparr>"
    if "s \<notin> cache st" "map_of wowdb_spells s = None" for s st
    using that by (rule cacheRelatedSpells_failed)
  show "AffectedSpell e \<in> cache (cacheRelatedSpells_loop wowdb_spells es st)"
    if "e \<in> set es" "AffectedSpell e \<noteq> 0" "map_of wowdb_spells (AffectedSpell e) \<noteq> None"
    for e es st
    using that by (rule cacheRelatedSpells_loop_covers)
  show "item.ID ` set (records r) = cache r"
    if "\<forall>i it. map_of wowdb_items i = Some it \<longrightarrow> item.ID it = i"
    using u that by (rule updated_keys)
  show "ID ` set (records r') = cache r'"
    if "\<forall>i sp. map_of wowdb_spells i = Some sp \<longrightarrow> ID sp = i"
    using u' that by (rule updated_keys)
  show "s \<notin> cache r'" if "map_of wowdb_spells s = None" "s \<notin> ID ` set spells" for s
    using updated_absent [OF u' that] .
  show "FailedFetchingSpell s \<in> set (console r')"
    if "s \<in> set (fetched (drop (length out') (console r')))" "map_of wowdb_spells s = None" for s
  proof -
    from u' obtain log where l: "console r' = out' @ log"
      "\<forall>i \<in> set (fetched log). map_of wowdb_spells i = None \<longrightarrow> FailedFetchingSpell i \<in> set log"
      unfolding updated_def by blast
    from l(1) that(1) have "s \<in> set (fetched log)" by simp
    with l that(2) show ?thesis by simp
  qed
  show "i \<in> set (fetched (drop (length next_out)
                 (console (updateItemsCache next_wowdb (records r) next_info next_out))))"
    if "\<forall>i it. map_of wowdb_items i = Some it \<longrightarrow> item.ID it = i"
      "i \<in> set next_info" "i \<notin> cache r"
    for next_wowdb next_info next_out i
  proof -
    from updated_keys [OF u that(1)] that(3) have "i \<notin> item.ID ` set (records r)" by simp
    with that(2) show ?thesis by (rule updateItemsCache_asked)
  qed
  show "SpellID ref \<in> set (fetched (drop (length next_out)
                 (console (updateSpellsCache next_wowdb (records r') next_items next_out))))"
    if "\<forall>i sp. map_of wowdb_spells i = Some sp \<longrightarrow> ID sp = i"
      "item \<in> set next_items" "ref \<in> set (Spells item)" "SpellID ref \<notin> cache r'"
    for next_wowdb next_items next_out item ref
  proof -
    from updated_keys [OF u' that(1)] that(4) have "SpellID ref \<notin> ID ` set (records r')" by simp
    with that(2,3) show ?thesis by (rule updateSpellsCache_asked)
  qed
qed


definition item31 :: item where
  "item31 = \<lparr>item.ID = 31, item.Name = ''Bandage'', Spells = []\<rparr>"

definition item33 :: item where
  "item33 = \<lparr>item.ID = 33, item.Name = ''Elixir'', Spells = [\<lparr>SpellID = 90\<rparr>, \<lparr>SpellID = 93\<rparr>]\<rparr>"

definition spell90 :: spell where
  "spell90 = \<lparr>ID = 90, Name = ''Trigger'',
     Effects = [\<lparr>Aura = False, AffectedSpell = 91\<rparr>, \<lparr>Aura = False, AffectedSpell = 92\<rparr>]\<rparr>"

definition spell92 :: spell where
  "spell92 = \<lparr>ID = 92, Name = ''Regen'', Effects = [\<lparr>Aura = True, AffectedSpell = 0\<rparr>]\<rparr>"

lemma failed_item_run:
  "updateItemsCache [(31, item31), (33, item33)] [] [31, 32, 33] [] =
     \<lparr>console = [FetchingData ''item'' 31, FetchingData ''item'' 32, FailedFetchingItem 32,
                 FetchingData ''item'' 33, NewItemsFound 2],
      records = [item31, item33], cache = {33, 31}, written = Some [item31, item33]\<rparr>"
  by (simp add: updateItemsCache_def updateItemsCache_loop_Cons fetch_ok_def fetch_failed_def
      item31_def item33_def Let_def)

lemma failed_spell_run:
  "updateSpellsCache [(90, spell90), (92, spell92)] [] [item33] [] =
     \<lparr>console = [FetchingData ''spell'' 90, FetchingData ''spell'' 91, FailedFetchingSpell 91,
                 FetchingData ''spell'' 92, FetchingData ''spell'' 93, FailedFetchingSpell 93,
                 NewSpellsFound 2],
      records = [spell90, spell92], cache = {92, 90}, written = Some [spell90, spell92]\<rparr>"
  by (simp add: updateSpellsCache_def cacheRelatedSpells_unfold cacheRelatedSpells_loop_Cons
      fetch_ok_def fetch_failed_def item33_def spell90_def spell92_def Let_def)

theorem fetch_failure_is_local_witness:
  "updateItemsCache [(31, item31), (33, item33)] [] [31, 32, 33] [] =
     \<lparr>console = [FetchingData ''item'' 31, FetchingData ''item'' 32, FailedFetchingItem 32,
                 FetchingData ''item'' 33, NewItemsFound 2],
      records = [item31, item33], cache = {33, 31}, written = Some [item31, item33]\<rparr> \<and>
   updateSpellsCache [(90, spell90), (92, spell92)] [] [item33] [] =
     \<lparr>console = [FetchingData ''spell'' 90, FetchingData ''spell'' 91, FailedFetchingSpell 91,
                 FetchingData ''spell'' 92, FetchingData ''spell'' 93, FailedFetchingSpell 93,
                 NewSpellsFound 2],
      records = [spell90, spell92], cache = {92, 90}, written = Some [spell90, spell92]\<rparr> \<and>
   map_of [(31::int, item31), (33, item33)] 32 = None \<and>
   (32::int) \<notin> {33, 31} \<and>
   FailedFetchingItem 32 \<in> set [FetchingData ''item'' 31, FetchingData ''item'' 32,
      FailedFetchingItem 32, FetchingData ''item'' 33, NewItemsFound 2] \<and>
   (33::int) \<in> {33, 31} \<and>
   32 \<in> set (fetched (console
      (updateItemsCache [(31, item31), (33, item33)] [item31, item33] [31, 32, 33] [])))"
proof -
  let ?wowdb = "[(31::int, item31), (33, item33)]"
  let ?r = "\<lparr>console = [FetchingData ''item'' 31, FetchingData ''item'' 32, FailedFetchingItem 32,
                 FetchingData ''item'' 33, NewItemsFound 2],
      records = [item31, item33], cache = {33::int, 31}, written = Some [item31, item33]\<rparr>"
  note t = fetch_failure_is_local [OF failed_item_run failed_spell_run, THEN conjunct1]
  have i32: "(32::int) \<in> set [31, 32, 33]" and i33: "(33::int) \<in> set [31, 32, 33]" by simp_all
  have f: "map_of ?wowdb 32 = None" by simp
  have n: "(32::int) \<notin> item.ID ` set []" by simp
  have k: "map_of ?wowdb 33 \<noteq> None" by simp
  have c0: "32 \<notin> cache ?r" by simp
  note c = t [THEN bspec, OF i32, THEN conjunct2, THEN mp, OF f, THEN mp, OF n]
  have a1: "(32::int) \<notin> {33, 31}"
    using c [THEN conjunct1] by simp
  have a2: "FailedFetchingItem 32 \<in> set [FetchingData ''item'' 31, FetchingData ''item'' 32,
      FailedFetchingItem 32, FetchingData ''item'' 33, NewItemsFound 2]"
    using c [THEN conjunct2] by simp
  have "33 \<in> cache ?r"
    by (rule t [THEN bspec, OF i33, THEN conjunct1, THEN mp, OF k])
  then have b: "(33::int) \<in> {33, 31}" by simp
  have q: "\<forall>i it. map_of ?wowdb i = Some it \<longrightarrow> item.ID it = i"
    by (simp add: item31_def item33_def)
  have "32 \<in> set (fetched (drop (length ([]::message list))
      (console (updateItemsCache ?wowdb (records ?r) [31, 32, 33] []))))"
    by (rule fetch_failure_is_local [OF failed_item_run failed_spell_run,
        THEN conjunct2, THEN conjunct2, THEN conjunct2, THEN conjunct2, THEN conjunct2,
        THEN conjunct2, THEN conjunct2, THEN conjunct2, THEN conjunct1, THEN mp, OF q,
        THEN spec, THEN spec, THEN spec, THEN bspec, OF i32, THEN mp, OF c0])
  then have d: "32 \<in> set (fetched (console
      (updateItemsCache ?wowdb [item31, item33] [31, 32, 33] [])))" by simp
  from failed_item_run failed_spell_run f a1 a2 b d show ?thesis by (intro conjI)
qed



definition spell95 :: spell where
  "spell95 = \<lparr>ID = 95, Name = ''Trigger'', Effects = [\<lparr>Aura = False, AffectedSpell = 96\<rparr>]\<rparr>"

definition spell96 :: spell where
  "spell96 = \<lparr>ID = 96, Name = ''Regen'', Effects = [\<lparr>Aura = True, AffectedSpell = 0\<rparr>]\<rparr>"

definition item950 :: item where
  "item950 = \<lparr>item.ID = 950, item.Name = ''Potion'', Spells = [\<lparr>SpellID = 95\<rparr>]\<rparr>"

theorem failed_spell_not_retried_counterexample:
  "updateSpellsCache [(95, spell95)] [] [item950] [] =
     \<lparr>console = [FetchingData ''spell'' 95, FetchingData ''spell'' 96, FailedFetchingSpell 96,
                 NewSpellsFound 1],
      records = [spell95], cache = {95}, written = Some [spell95]\<rparr> \<and>
   updateSpellsCache [(95, spell95), (96, spell96)] [spell95] [item950] [] =
     \<lparr>console = [], records = [spell95], cache = {95}, written = None\<rparr> \<and>
   fetched (console (updateSpellsCache [(95, spell95), (96, spell96)] [spell95] [item950] [])) = []"
  by (simp add: updateSpellsCache_def cacheRelatedSpells_unfold cacheRelatedSpells_loop_Cons
      fetch_ok_def fetch_failed_def item950_def spell95_def spell96_def Let_def)

text \<open>
  C7. \<^verbatim>\<open>cacheRelatedSpells\<close> returns at once for an id of the set, and puts the id of
  a spell it has fetched into the set before it goes through the effects. It is a
  total function on every table of wowdb, with cycles or without. No id is fetched
  with success twice, and no id of the set is fetched at all. An id whose fetch fails
  does not come into the set, and it is fetched again when it is referenced again:
  spell 70 references the failing spell 71 twice, and 71 is fetched twice.
\<close>

theorem expander_fetches_a_spell_once:
  "(s \<in> cache st \<longrightarrow> cacheRelatedSpells wowdb s st = st) \<and>
   (s \<notin> cache st \<longrightarrow> map_of wowdb s = Some sp \<longrightarrow>
      cacheRelatedSpells wowdb s st =
        cacheRelatedSpells_loop wowdb (Effects sp)
          (st\<lparr>console := console st @ [FetchingData ''spell'' s], records := records st @ [sp],
             cache := insert s (cache st)\<rparr>)) \<and>
   distinct (fetched_ok wowdb (drop (length (console st)) (console (cacheRelatedSpells wowdb s st)))) \<and>
   set (fetched (drop (length (console st)) (console (cacheRelatedSpells wowdb s st)))) \<inter> cache st = {} \<and>
   distinct (fetched_ok wowdb (drop (length out) (console (updateSpellsCache wowdb spells items out)))) \<and>
   set (fetched (drop (length out) (console (updateSpellsCache wowdb spells items out)))) \<inter>
     ID ` set spells = {}"
proof (intro conjI impI)
  show "cacheRelatedSpells wowdb s st = st" if "s \<in> cache st"
    using that by (simp add: cacheRelatedSpells_unfold)
  show "cacheRelatedSpells wowdb s st =
        cacheRelatedSpells_loop wowdb (Effects sp)
          (st\<lparr>console := console st @ [FetchingData ''spell'' s], records := records st @ [sp],
             cache := insert s (cache st)\<rparr>)"
    if "s \<notin> cache st" "map_of wowdb s = Some sp"
    using that by (simp add: cacheRelatedSpells_unfold fetch_ok_def)
  from cacheRelatedSpells_grows(1) [of wowdb st s] obtain log where
    "console (cacheRelatedSpells wowdb s st) = console st @ log"
    "distinct (fetched_ok wowdb log)" "set (fetched log) \<inter> cache st = {}"
    unfolding grows_def by blast
  then show "distinct (fetched_ok wowdb (drop (length (console st)) (console (cacheRelatedSpells wowdb s st))))"
    and "set (fetched (drop (length (console st)) (console (cacheRelatedSpells wowdb s st)))) \<inter> cache st = {}"
    by simp_all
  from updateSpellsCache_updated [of wowdb spells out items] obtain log where
    "console (updateSpellsCache wowdb spells items out) = out @ log"
    "distinct (fetched_ok wowdb log)" "set (fetched log) \<inter> ID ` set spells = {}"
    unfolding updated_def by blast
  then show "distinct (fetched_ok wowdb (drop (length out) (console (updateSpellsCache wowdb spells items out))))"
    and "set (fetched (drop (length out) (console (updateSpellsCache wowdb spells items out)))) \<inter>
     ID ` set spells = {}"
    by simp_all
qed

definition spell70 :: spell where
  "spell70 = \<lparr>ID = 70, Name = ''Trigger'',
     Effects = [\<lparr>Aura = False, AffectedSpell = 71\<rparr>, \<lparr>Aura = False, AffectedSpell = 71\<rparr>]\<rparr>"

theorem failed_spell_fetched_twice_counterexample:
  "fetched (console (cacheRelatedSpells [(70, spell70)] 70
      \<lparr>console = [], records = [], cache = {}, written = None\<rparr>)) = [70, 71, 71] \<and>
   \<not> distinct [70, 71, 71 :: int]"
  by (simp add: cacheRelatedSpells_unfold cacheRelatedSpells_loop_Cons fetch_ok_def
      fetch_failed_def spell70_def)

definition spell80 :: spell where
  "spell80 = \<lparr>ID = 80, Name = ''Haste Boost'', Effects = [\<lparr>Aura = True, AffectedSpell = 81\<rparr>]\<rparr>"

definition spell81 :: spell where
  "spell81 = \<lparr>ID = 81, Name = ''Regen'', Effects = [\<lparr>Aura = True, AffectedSpell = 80\<rparr>]\<rparr>"

lemma spell_cycle_run:
  "cacheRelatedSpells [(80, spell80), (81, spell81)] 80
      \<lparr>console = [], records = [], cache = {}, written = None\<rparr> =
   \<lparr>console = [FetchingData ''spell'' 80, FetchingData ''spell'' 81],
      records = [spell80, spell81], cache = {81, 80}, written = None\<rparr>"
  by (simp add: cacheRelatedSpells_unfold cacheRelatedSpells_loop_Cons fetch_ok_def
      fetch_failed_def spell80_def spell81_def)

theorem expander_fetches_a_spell_once_witness:
  "(80::int) \<notin> cache \<lparr>console = [], records = ([]::spell list), cache = {}, written = None\<rparr> \<and>
   map_of [(80::int, spell80), (81, spell81)] 80 = Some spell80 \<and>
   cacheRelatedSpells [(80, spell80), (81, spell81)] 80
      \<lparr>console = [], records = [], cache = {}, written = None\<rparr> =
   \<lparr>console = [FetchingData ''spell'' 80, FetchingData ''spell'' 81],
      records = [spell80, spell81], cache = {81, 80}, written = None\<rparr> \<and>
   cacheRelatedSpells_loop [(80, spell80), (81, spell81)] (Effects spell80)
      \<lparr>console = [FetchingData ''spell'' 80], records = [spell80], cache = {80}, written = None\<rparr> =
   \<lparr>console = [FetchingData ''spell'' 80, FetchingData ''spell'' 81],
      records = [spell80, spell81], cache = {81, 80}, written = None\<rparr>"
proof -
  let ?wowdb = "[(80::int, spell80), (81, spell81)]"
  let ?st = "\<lparr>console = [], records = ([]::spell list), cache = {}, written = None\<rparr>"
  have h1: "(80::int) \<notin> cache ?st" by simp
  have h2: "map_of ?wowdb 80 = Some spell80" by simp
  have "cacheRelatedSpells ?wowdb 80 ?st =
     cacheRelatedSpells_loop ?wowdb (Effects spell80)
          (?st\<lparr>console := console ?st @ [FetchingData ''spell'' 80], records := records ?st @ [spell80],
             cache := insert 80 (cache ?st)\<rparr>)"
    by (rule expander_fetches_a_spell_once [of 80 ?st ?wowdb spell80, THEN conjunct2, THEN conjunct1,
        THEN mp, OF h1, THEN mp, OF h2])
  then have "cacheRelatedSpells_loop ?wowdb (Effects spell80)
      \<lparr>console = [FetchingData ''spell'' 80], records = [spell80], cache = {80}, written = None\<rparr> =
    \<lparr>console = [FetchingData ''spell'' 80, FetchingData ''spell'' 81],
      records = [spell80, spell81], cache = {81, 80}, written = None\<rparr>"
    unfolding spell_cycle_run by simp
  with h1 h2 spell_cycle_run show ?thesis by (intro conjI)
qed

end
